theory Spec2Isabelle
  imports Complex_Main "HOL-Library.Word"
begin

unbundle bit_operations_syntax

section \<open>Results of the parsing functions\<close>

text \<open>
  Every parsing function of \<^verbatim>\<open>sniff.c\<close> returns \<^verbatim>\<open>char *\<close>: \<^verbatim>\<open>NULL\<close> on success, or a
  message built by the \<^verbatim>\<open>ERROR\<close> macro, which prefixes the format string with
  \<^verbatim>\<open>"at input char #%ld: "\<close> and the offset \<^verbatim>\<open>c->s - c->beginning\<close>.  A message is
  modelled by a constructor per format string (with the \<^verbatim>\<open>%c\<close> argument where there is
  one) and the offset.  The only message built without the macro is the one of
  \<^verbatim>\<open>dson_parse\<close> for an input that is not NUL-terminated.
\<close>

datatype msg =
    Not_enough_characters_to_produce_empty
  | Expected_empty
  | End_of_input_while_producing_bool
  | Expected_yes char
  | Expected_bool
  | Malformed_unicode_escape
  | Expected_string_got_end_of_input
  | Malformed_string_missing_quote
  | Missing_closing_delimiter_on_string
  | Unrecognized_or_forbidden_escape char
  | Bad_octal_character char
  | End_of_input_while_parsing_number
  | Tried_to_parse_very
  | Expected_array_got_end_of_input
  | Malformed_array_expected_so
  | End_of_input_while_parsing_array
  | Tried_to_parse_also
  | Expected_many
  | Expected_dict_but_got_end_of_input
  | Expected_such
  | End_of_input_while_reading_dict
  | Expected_is
  | End_of_input_while_looking_for_closing_wow
  | Expected_wow
  | Unable_to_determine_value_type

datatype error = Input_was_not_NUL_terminated | At nat msg

text \<open>
  Behaviour the C standard leaves undefined is an outcome of its own, so that no
  theorem about a result silently covers it.  \<open>Out_of_fuel\<close> belongs to the model only:
  the mutually recursive parsers below recurse on a fuel argument, and
  \<open>dson_parse\<close> is shown to supply enough of it.
\<close>

datatype ub = Heap_overflow | Null_dereference | Invalid_free | Out_of_bounds_read
  | Cast_out_of_range

datatype 'a res = Ok 'a | Err error | Undefined ub | Out_of_fuel

section \<open>The cursor\<close>

text \<open>
  The struct \<^verbatim>\<open>context\<close> of the source (the record \<open>ctx\<close>) has the pointers \<^verbatim>\<open>s\<close>,
  \<^verbatim>\<open>s_end\<close> and \<^verbatim>\<open>beginning\<close> into
  the input, and the flag \<^verbatim>\<open>unsafe\<close>.
  \<open>input\<close> holds the \<^verbatim>\<open>length\<close> payload bytes the three pointers point into;
  \<open>s\<close> is the offset of \<^verbatim>\<open>c->s\<close> from the first of them.  \<^verbatim>\<open>dson_parse\<close> sets
  \<^verbatim>\<open>beginning = input\<close> and \<^verbatim>\<open>s_end = input + length\<close> once and nothing changes them, so
  they are the offsets \<open>0\<close> and \<open>length (input c)\<close>.  The byte at offset
  \<open>length (input c)\<close> is the NUL terminator that \<^verbatim>\<open>dson_parse\<close> has checked.
\<close>

record ctx =
  input :: string
  s :: nat
  unsafe :: bool

definition beginning :: "ctx \<Rightarrow> nat" where
  "beginning c = 0"

definition s_end :: "ctx \<Rightarrow> nat" where
  "s_end c = length (input c)"

definition byte_at :: "string \<Rightarrow> nat \<Rightarrow> char" where
  "byte_at buf i = (if i < length buf then buf ! i else CHR 0x00)"

definition ERROR :: "ctx \<Rightarrow> msg \<Rightarrow> error" where
  "ERROR c m = At (s c - beginning c) m"

definition peek :: "ctx \<Rightarrow> char" where
  "peek c = byte_at (input c) (s c)"

text \<open>\<^verbatim>\<open>p_chars\<close> returns the old position, or \<^verbatim>\<open>NULL\<close> (here \<open>None\<close>) without moving.\<close>

definition p_chars :: "ctx \<Rightarrow> nat \<Rightarrow> (nat \<times> ctx) option" where
  "p_chars c n = (if s c + n > s_end c then None else Some (s c, c\<lparr>s := s c + n\<rparr>))"

definition p_char :: "ctx \<Rightarrow> (nat \<times> ctx) option" where
  "p_char c = p_chars c 1"

text \<open>\<^verbatim>\<open>p_char(c);\<close> as a statement: the returned pointer is dropped.\<close>

definition skip_char :: "ctx \<Rightarrow> ctx" where
  "skip_char c = (case p_char c of None \<Rightarrow> c | Some (cur, c') \<Rightarrow> c')"

definition whitespace :: string where
  "whitespace = [CHR 0x20, CHR 0x09, CHR 0x0A, CHR 0x0D, CHR 0x0B, CHR 0x0C]"

function maybe_p_whitespace :: "ctx \<Rightarrow> ctx" where
  "maybe_p_whitespace c =
     (if peek c = CHR 0x00 \<or> peek c \<notin> set whitespace then c
      else maybe_p_whitespace (skip_char c))"
  by pat_completeness auto
termination
  by (relation "measure (\<lambda>c. s_end c - s c)")
     (auto simp: peek_def byte_at_def skip_char_def p_char_def p_chars_def s_end_def
           split: if_splits)

declare maybe_p_whitespace.simps [simp del]

section \<open>Strings of the C library\<close>

text \<open>The C string that starts at offset \<open>i\<close>: the bytes up to the first NUL.\<close>

definition c_str :: "string \<Rightarrow> nat \<Rightarrow> string" where
  "c_str buf i = takeWhile (\<lambda>ch. ch \<noteq> CHR 0x00) (drop i buf)"

fun strcmp :: "string \<Rightarrow> string \<Rightarrow> int" where
  "strcmp [] [] = 0"
| "strcmp [] (y # ys) = - 1"
| "strcmp (x # xs) [] = 1"
| "strcmp (x # xs) (y # ys) =
     (if x = y then strcmp xs ys
      else if (of_char x :: nat) < of_char y then - 1 else 1)"

definition strncmp :: "string \<Rightarrow> string \<Rightarrow> nat \<Rightarrow> int" where
  "strncmp a b n = strcmp (take n a) (take n b)"

definition tolower :: "char \<Rightarrow> char" where
  "tolower ch =
     (if (65::nat) \<le> of_char ch \<and> of_char ch \<le> (90::nat)
      then char_of (of_char ch + (32::nat)) else ch)"

definition strncasecmp :: "string \<Rightarrow> string \<Rightarrow> nat \<Rightarrow> int" where
  "strncasecmp a b n = strcmp (map tolower (take n a)) (map tolower (take n b))"

section \<open>Primitive decoders\<close>

definition p_empty :: "ctx \<Rightarrow> unit res \<times> ctx" where
  "p_empty c =
     (case p_chars c (length ''empty'') of
        None \<Rightarrow> (Err (ERROR c Not_enough_characters_to_produce_empty), c)
      | Some (cur, c') \<Rightarrow>
          if strcmp ''empty'' (c_str (input c') cur) \<noteq> 0
          then (Err (ERROR c' Expected_empty), c')
          else (Ok (), c'))"

definition p_bool :: "ctx \<Rightarrow> bool res \<times> ctx" where
  "p_bool c =
     (case p_chars c 2 of
        None \<Rightarrow> (Err (ERROR c End_of_input_while_producing_bool), c)
      | Some (cur, c1) \<Rightarrow>
          if byte_at (input c1) cur = CHR ''y'' \<and> byte_at (input c1) (cur + 1) = CHR ''e''
          then (case p_char c1 of
                  None \<Rightarrow> (Err (ERROR c1 End_of_input_while_producing_bool), c1)
                | Some (cur2, c2) \<Rightarrow>
                    if byte_at (input c2) cur2 \<noteq> CHR ''s''
                    then (Err (ERROR c2 (Expected_yes (byte_at (input c2) cur2))), c2)
                    else (Ok True, c2))
          else if byte_at (input c1) cur = CHR ''n'' \<and> byte_at (input c1) (cur + 1) = CHR ''o''
          then (Ok False, c1)
          else (Err (ERROR c1 Expected_bool), c1))"

text \<open>
  \<^verbatim>\<open>peek(c) >= '0' && peek(c) <= '7'\<close>.  Whether \<^verbatim>\<open>char\<close> is signed does not matter: a
  byte above 127 fails the test either way.
\<close>

definition is_octal :: "char \<Rightarrow> bool" where
  "is_octal ch = ((48::nat) \<le> of_char ch \<and> of_char ch \<le> (55::nat))"

text \<open>\<^verbatim>\<open>ch - '0'\<close>, an \<^verbatim>\<open>int\<close>.\<close>

definition digit :: "char \<Rightarrow> int" where
  "digit ch = of_char ch - 48"

text \<open>
  A \<^verbatim>\<open>double\<close> is modelled by the real number it stands for: every operation is exact,
  rounding and overflow to infinity are not modelled.
\<close>

function p_octal_loop :: "ctx \<Rightarrow> real \<Rightarrow> real \<times> ctx" where
  "p_octal_loop c n =
     (if is_octal (peek c)
      then p_octal_loop (skip_char c) (n * 8 + real_of_int (digit (peek c)))
      else (n, c))"
  by pat_completeness auto
termination
  by (relation "measure (\<lambda>(c, n). s_end c - s c)")
     (auto simp: peek_def byte_at_def skip_char_def p_char_def p_chars_def s_end_def
                 is_octal_def split: if_splits)

declare p_octal_loop.simps [simp del]

definition p_octal :: "ctx \<Rightarrow> real \<times> ctx" where
  "p_octal c = p_octal_loop c 0"

subsection \<open>UTF-8\<close>

text \<open>The constants are octal in the source: 0200, 04000, 0200000, 04200000.\<close>

definition bytes_needed :: "32 word \<Rightarrow> 8 word" where
  "bytes_needed w =
     (if w < 128 then 1
      else if w < 2048 then 2
      else if w < 65536 then 3
      else if w < 1114112 then 4
      else 0)"

definition to_char :: "32 word \<Rightarrow> char" where
  "to_char w = char_of (unat w)"

text \<open>
  \<^verbatim>\<open>write_utf8\<close> returns the length and stores that many bytes at \<^verbatim>\<open>buf\<close>; the model
  returns the bytes, and the caller stores them.
  Octal 0360, 0340, 0300, 0200 are 240, 224, 192, 128; 077, 037, 017, 07, 0177 are
  63, 31, 15, 7, 127.
\<close>

definition write_utf8 :: "32 word \<Rightarrow> 8 word \<times> string" where
  "write_utf8 point =
     (let len = bytes_needed point in
      if len = 4 then
        (len, [to_char (240 OR (drop_bit 18 point AND 7)),
               to_char (128 OR (drop_bit 12 point AND 63)),
               to_char (128 OR (drop_bit 6 point AND 63)),
               to_char (128 OR (point AND 63))])
      else if len = 3 then
        (len, [to_char (224 OR (drop_bit 12 point AND 15)),
               to_char (128 OR (drop_bit 6 point AND 63)),
               to_char (128 OR (point AND 63))])
      else if len = 2 then
        (len, [to_char (192 OR (drop_bit 6 point AND 31)),
               to_char (128 OR (point AND 63))])
      else if len = 1 then
        (len, [to_char (point AND 127)])
      else (len, []))"

subsection \<open>Numbers\<close>

text \<open>The loop over the fractional digits; \<^verbatim>\<open>*p_char(c)\<close> dereferences the result.\<close>

function frac_loop :: "ctx \<Rightarrow> real \<Rightarrow> real \<Rightarrow> (real res \<times> ctx)" where
  "frac_loop c n divisor =
     (if is_octal (peek c)
      then (case p_char c of
              None \<Rightarrow> (Undefined Null_dereference, c)
            | Some (cur, c') \<Rightarrow>
                frac_loop c' (n + real_of_int (digit (byte_at (input c') cur)) / divisor)
                  (divisor * 2))
      else (Ok n, c))"
  by pat_completeness auto
termination
  by (relation "measure (\<lambda>(c, n, d). s_end c - s c)")
     (auto simp: peek_def byte_at_def p_char_def p_chars_def s_end_def
                 is_octal_def split: if_splits)

declare frac_loop.simps [simp del]

text \<open>The block \<^verbatim>\<open>if (peek(c) == '.') { ... }\<close> of \<^verbatim>\<open>p_double\<close>.\<close>

definition p_double_frac :: "ctx \<Rightarrow> real \<Rightarrow> real res \<times> ctx" where
  "p_double_frac c n =
     (if peek c = CHR ''.''
      then (let c1 = skip_char c in
            if \<not> is_octal (peek c1)
            then (Err (ERROR c1 (Bad_octal_character (peek c1))), c1)
            else (case frac_loop c1 n 8 of
                    (Ok n', c2) \<Rightarrow> (Ok n', maybe_p_whitespace c2)
                  | (Err e, c2) \<Rightarrow> (Err e, c2)
                  | (Undefined u, c2) \<Rightarrow> (Undefined u, c2)
                  | (Out_of_fuel, c2) \<Rightarrow> (Out_of_fuel, c2)))
      else (Ok n, c))"

text \<open>
  \<^verbatim>\<open>pow(010, power)\<close>: \<open>power\<close> is the value of an octal run or its negation, an
  integer, and the power is taken at that integer.
\<close>

definition pow :: "real \<Rightarrow> real \<Rightarrow> real" where
  "pow x y = x powi \<lfloor>y\<rfloor>"

text \<open>The block \<^verbatim>\<open>if (peek(c) == 'v' || peek(c) == 'V') { ... }\<close> of \<^verbatim>\<open>p_double\<close>.\<close>

definition p_double_very :: "ctx \<Rightarrow> real \<Rightarrow> real res \<times> ctx" where
  "p_double_very c n =
     (if peek c = CHR ''v'' \<or> peek c = CHR ''V''
      then (case p_chars c 4 of
              None \<Rightarrow> (Err (ERROR c End_of_input_while_parsing_number), c)
            | Some (cur, c1) \<Rightarrow>
                if strncasecmp (c_str (input c1) cur) ''very'' 4 \<noteq> 0
                then (Err (ERROR c1 Tried_to_parse_very), c1)
                else
                  (let powneg = (peek c1 \<noteq> CHR ''+'' \<and> peek c1 = CHR ''-'');
                       c2 = (if peek c1 = CHR ''+'' then skip_char c1
                             else if peek c1 = CHR ''-'' then skip_char c1 else c1);
                       c3 = maybe_p_whitespace c2
                   in if \<not> is_octal (peek c3)
                      then (Err (ERROR c3 (Bad_octal_character (peek c3))), c3)
                      else (let (power, c4) = p_octal c3;
                                power' = (if powneg then - power else power)
                            in (Ok (n * pow 8 power'), c4))))
      else (Ok n, c))"

definition p_double :: "ctx \<Rightarrow> real res \<times> ctx" where
  "p_double c =
     (let isneg = (peek c = CHR ''-'');
          c1 = maybe_p_whitespace (if isneg then skip_char c else c);
          (n, c2) = (if peek c1 = CHR ''0'' then (0, skip_char c1) else p_octal c1);
          c3 = maybe_p_whitespace c2
      in case p_double_frac c3 n of
           (Ok n1, c4) \<Rightarrow>
             (case p_double_very c4 n1 of
                (Ok n2, c5) \<Rightarrow> (Ok (if isneg then - n2 else n2), c5)
              | (Err e, c5) \<Rightarrow> (Err e, c5)
              | (Undefined u, c5) \<Rightarrow> (Undefined u, c5)
              | (Out_of_fuel, c5) \<Rightarrow> (Out_of_fuel, c5))
         | (Err e, c4) \<Rightarrow> (Err e, c4)
         | (Undefined u, c4) \<Rightarrow> (Undefined u, c4)
         | (Out_of_fuel, c4) \<Rightarrow> (Out_of_fuel, c4))"

section \<open>The heap and the value tree\<close>

text \<open>
  A block of the allocator is named by its address.  The heap is the set of live
  blocks and the next fresh address; releasing a block that is not live is undefined
  behaviour.
\<close>

type_synonym addr = nat

record heap =
  next_addr :: addr
  live :: "addr set"

text \<open>
  Modelled from the spec: the macros \<^verbatim>\<open>CALLOC\<close> and \<^verbatim>\<open>RESIZE_ARRAY\<close> come from
  \<^verbatim>\<open>allocation.h\<close>, which is not among the sources.  \<open>CALLOC\<close> returns a fresh,
  zero-filled block and does not fail; \<^verbatim>\<open>RESIZE_ARRAY\<close> grows a block and leaves it
  live under the same name, so it does not change the heap and has no counterpart
  below.
\<close>

definition CALLOC :: "heap \<Rightarrow> addr \<times> heap" where
  "CALLOC h = (next_addr h, h\<lparr>next_addr := Suc (next_addr h), live := insert (next_addr h) (live h)\<rparr>)"

definition free :: "addr \<Rightarrow> heap \<Rightarrow> ub + heap" where
  "free a h = (if a \<in> live h then Inr (h\<lparr>live := live h - {a}\<rparr>) else Inl Invalid_free)"

text \<open>
  A \<^verbatim>\<open>dson_value\<close> is a block holding the type tag and the payload.  Each constructor
  carries the address of that block first, then the addresses of the blocks the
  payload points to: the character buffer of a string; the pointer array of an array;
  the \<^verbatim>\<open>dson_dict\<close> struct, its \<^verbatim>\<open>keys\<close> array and its \<^verbatim>\<open>values\<close> array of a
  dictionary, whose entries are the key buffer's address, the key and the value.
\<close>

datatype dson_value =
    DSON_STRING addr addr string
  | DSON_DOUBLE addr real
  | DSON_BOOL addr bool
  | DSON_NONE addr
  | DSON_ARRAY addr addr "dson_value list"
  | DSON_DICT addr addr addr addr "(addr \<times> string \<times> dson_value) list"

text \<open>
  \<^verbatim>\<open>dson_free\<close>, \<^verbatim>\<open>array_free\<close> and \<^verbatim>\<open>dict_free\<close>.  \<open>dson_free_value\<close> is the body of
  \<^verbatim>\<open>dson_free\<close> from the first read of \<^verbatim>\<open>(*v)->type\<close> to \<^verbatim>\<open>free(*v)\<close>; the two loops
  run over the elements up to the NULL that ends the pointer array.
\<close>

fun dson_free_value :: "dson_value \<Rightarrow> heap \<Rightarrow> ub + heap"
  and array_free_loop :: "dson_value list \<Rightarrow> heap \<Rightarrow> ub + heap"
  and dict_free_loop :: "(addr \<times> string \<times> dson_value) list \<Rightarrow> heap \<Rightarrow> ub + heap"
where
  "dson_free_value (DSON_STRING a sa str) h =
     (case free sa h of Inl u \<Rightarrow> Inl u | Inr h1 \<Rightarrow> free a h1)"
| "dson_free_value (DSON_DOUBLE a n) h = free a h"
| "dson_free_value (DSON_BOOL a b) h = free a h"
| "dson_free_value (DSON_NONE a) h = free a h"
| "dson_free_value (DSON_ARRAY a arr vs) h =
     (case array_free_loop vs h of Inl u \<Rightarrow> Inl u
      | Inr h1 \<Rightarrow> (case free arr h1 of Inl u \<Rightarrow> Inl u | Inr h2 \<Rightarrow> free a h2))"
| "dson_free_value (DSON_DICT a d ks vls es) h =
     (case dict_free_loop es h of Inl u \<Rightarrow> Inl u
      | Inr h1 \<Rightarrow> (case free ks h1 of Inl u \<Rightarrow> Inl u
      | Inr h2 \<Rightarrow> (case free vls h2 of Inl u \<Rightarrow> Inl u
      | Inr h3 \<Rightarrow> (case free d h3 of Inl u \<Rightarrow> Inl u | Inr h4 \<Rightarrow> free a h4))))"
| "array_free_loop [] h = Inr h"
| "array_free_loop (v # vs) h =
     (case dson_free_value v h of Inl u \<Rightarrow> Inl u | Inr h1 \<Rightarrow> array_free_loop vs h1)"
| "dict_free_loop [] h = Inr h"
| "dict_free_loop (e # es) h =
     (case free (fst e) h of Inl u \<Rightarrow> Inl u
      | Inr h1 \<Rightarrow> (case dson_free_value (snd (snd e)) h1 of Inl u \<Rightarrow> Inl u
      | Inr h2 \<Rightarrow> dict_free_loop es h2))"

definition array_free :: "addr \<Rightarrow> dson_value list \<Rightarrow> heap \<Rightarrow> ub + heap" where
  "array_free arr vs h =
     (case array_free_loop vs h of Inl u \<Rightarrow> Inl u | Inr h1 \<Rightarrow> free arr h1)"

text \<open>
  The argument of \<^verbatim>\<open>dson_free\<close> is a pointer to the caller's handle: \<open>None\<close> is
  \<^verbatim>\<open>v == NULL\<close>, \<open>Some None\<close> is a handle that holds \<^verbatim>\<open>NULL\<close>.  The result is the
  handle after the call and the heap.
\<close>

definition dson_free :: "dson_value option option \<Rightarrow> heap \<Rightarrow> ub + (dson_value option option \<times> heap)" where
  "dson_free v h =
     (case v of
        None \<Rightarrow> Inr (None, h)
      | Some None \<Rightarrow> Inl Null_dereference
      | Some (Some x) \<Rightarrow>
          (case dson_free_value x h of Inl u \<Rightarrow> Inl u | Inr h1 \<Rightarrow> Inr (Some None, h1)))"

section \<open>Strings\<close>

text \<open>
  The output buffer of \<^verbatim>\<open>p_string\<close> is a list as long as the block that was
  allocated for it.  \<open>store\<close> is an assignment \<^verbatim>\<open>buf[i] = ch\<close>; outside the block it is
  undefined behaviour (\<open>None\<close>).
\<close>

definition store :: "string \<Rightarrow> nat \<Rightarrow> char \<Rightarrow> string option" where
  "store buf i ch = (if i < length buf then Some (buf[i := ch]) else None)"

fun store_bytes :: "string \<Rightarrow> nat \<Rightarrow> string \<Rightarrow> string option" where
  "store_bytes buf i [] = Some buf"
| "store_bytes buf i (b # bs) =
     (case store buf i b of None \<Rightarrow> None | Some buf' \<Rightarrow> store_bytes buf' (Suc i) bs)"

text \<open>\<^verbatim>\<open>out[i++] = ch\<close>, then the rest of the loop \<open>k\<close>.\<close>

definition emit :: "string \<Rightarrow> nat \<Rightarrow> char \<Rightarrow> ctx \<Rightarrow> (string \<Rightarrow> nat \<Rightarrow> (string \<times> nat) res \<times> ctx)
    \<Rightarrow> (string \<times> nat) res \<times> ctx" where
  "emit out i ch c k =
     (case store out i ch of None \<Rightarrow> (Undefined Heap_overflow, c) | Some out' \<Rightarrow> k out' (Suc i))"

text \<open>
  The loop of \<^verbatim>\<open>handle_escaped\<close>: \<^verbatim>\<open>acc *= 010; p_octal(c, &acc);\<close>.  \<^verbatim>\<open>p_octal\<close> reads
  at the cursor \<^verbatim>\<open>c->s\<close> and assigns its own sum, started from zero, to \<^verbatim>\<open>*out\<close>, so the
  product is overwritten.
\<close>

fun escaped_loop :: "nat \<Rightarrow> ctx \<Rightarrow> real \<Rightarrow> real \<times> ctx" where
  "escaped_loop 0 c acc = (acc, c)"
| "escaped_loop (Suc k) c acc =
     (let acc1 = acc * 8;
          (acc2, c') = p_octal c
      in escaped_loop k c' acc2)"

text \<open>\<^verbatim>\<open>(uint32_t)acc\<close> for a \<^verbatim>\<open>double\<close> is defined when the truncated value fits.\<close>

definition to_uint32 :: "real \<Rightarrow> 32 word option" where
  "to_uint32 x = (if - 1 < x \<and> x < 4294967296 then Some (word_of_int (if x < 0 then \<lceil>x\<rceil> else \<lfloor>x\<rfloor>)) else None)"

text \<open>
  The statements of \<^verbatim>\<open>handle_escaped\<close> after the loop: the cast, \<^verbatim>\<open>write_utf8\<close> into
  \<^verbatim>\<open>buf\<close> (which is \<^verbatim>\<open>out + i\<close>), the test of the length, \<^verbatim>\<open>*i += len\<close>.
\<close>

definition write_escaped :: "ctx \<Rightarrow> string \<Rightarrow> nat \<Rightarrow> real \<Rightarrow> (string \<times> nat) res \<times> ctx" where
  "write_escaped c out i acc =
     (case to_uint32 acc of
        None \<Rightarrow> (Undefined Cast_out_of_range, c)
      | Some point \<Rightarrow>
          (let (len, bytes) = write_utf8 point in
           case store_bytes out i bytes of
             None \<Rightarrow> (Undefined Heap_overflow, c)
           | Some out' \<Rightarrow>
               if len = 0 then (Err (ERROR c Malformed_unicode_escape), c)
               else (Ok (out', i + unat len), c)))"

definition handle_escaped :: "ctx \<Rightarrow> string \<Rightarrow> nat \<Rightarrow> (string \<times> nat) res \<times> ctx" where
  "handle_escaped c out i =
     (let (acc, c') = escaped_loop 6 c 0 in write_escaped c' out i acc)"

text \<open>
  The first loop of \<^verbatim>\<open>p_string\<close> finds the closing quote and counts in
  \<^verbatim>\<open>num_escaped\<close>.  It returns the offset \<^verbatim>\<open>end\<close> of the quote and the count.
\<close>

function string_scan :: "ctx \<Rightarrow> nat \<Rightarrow> (nat \<times> nat) res \<times> ctx" where
  "string_scan c num_escaped =
     (case p_char c of
        None \<Rightarrow> (Err (ERROR c Missing_closing_delimiter_on_string), c)
      | Some (end1, c1) \<Rightarrow>
          if byte_at (input c1) end1 = CHR 0x22 then (Ok (end1, num_escaped), c1)
          else if byte_at (input c1) end1 = CHR 0x5C then
            (case p_char c1 of
               None \<Rightarrow> (Err (ERROR c1 Missing_closing_delimiter_on_string), c1)
             | Some (end2, c2) \<Rightarrow>
                 if byte_at (input c2) end2 = CHR ''u'' then
                   (case p_chars c2 6 of
                      None \<Rightarrow> (Err (ERROR c2 Missing_closing_delimiter_on_string), c2)
                    | Some (end3, c3) \<Rightarrow> string_scan c3 (num_escaped + 1 + 2))
                 else string_scan c2 (num_escaped + 1))
          else string_scan c1 num_escaped)"
  by pat_completeness auto
termination
  by (relation "measure (\<lambda>(c, n). s_end c - s c)")
     (auto simp: p_char_def p_chars_def s_end_def split: if_splits)

declare string_scan.simps [simp del]

text \<open>
  The second loop, \<^verbatim>\<open>for (p = start; p < end; p++)\<close>, with the buffer \<open>out\<close> and the
  index \<open>i\<close>.  0x5C is the backslash, 0x22 the double quote; \<^verbatim>\<open>'\b'\<close>, \<^verbatim>\<open>'\f'\<close>, \<^verbatim>\<open>'\n'\<close>,
  \<^verbatim>\<open>'\r'\<close>, \<^verbatim>\<open>'\t'\<close> are 8, 12, 10, 13, 9.  On an error the source frees \<^verbatim>\<open>out\<close> and
  returns; the model returns the error and \<open>p_string\<close> frees.
\<close>

function decode_loop :: "ctx \<Rightarrow> nat \<Rightarrow> nat \<Rightarrow> string \<Rightarrow> nat \<Rightarrow> (string \<times> nat) res \<times> ctx" where
  "decode_loop c e p out i =
     (if p < e then
        (if byte_at (input c) p \<noteq> CHR 0x5C
         then emit out i (byte_at (input c) p) c (decode_loop c e (p + 1))
         else if byte_at (input c) (p + 1) = CHR 0x22 \<or> byte_at (input c) (p + 1) = CHR 0x5C
                 \<or> byte_at (input c) (p + 1) = CHR ''/''
         then emit out i (byte_at (input c) (p + 1)) c (decode_loop c e (p + 2))
         else if byte_at (input c) (p + 1) = CHR ''b'' \<and> unsafe c
         then emit out i (CHR 0x08) c (decode_loop c e (p + 2))
         else if byte_at (input c) (p + 1) = CHR ''f''
         then emit out i (CHR 0x0C) c (decode_loop c e (p + 2))
         else if byte_at (input c) (p + 1) = CHR ''n''
         then emit out i (CHR 0x0A) c (decode_loop c e (p + 2))
         else if byte_at (input c) (p + 1) = CHR ''r''
         then emit out i (CHR 0x0D) c (decode_loop c e (p + 2))
         else if byte_at (input c) (p + 1) = CHR ''t''
         then emit out i (CHR 0x09) c (decode_loop c e (p + 2))
         else if byte_at (input c) (p + 1) = CHR ''u'' \<and> unsafe c
         then (case handle_escaped c out i of
                 (Ok (out', i'), c') \<Rightarrow> decode_loop c' e (p + 2) out' i'
               | (Err er, c') \<Rightarrow> (Err er, c')
               | (Undefined u, c') \<Rightarrow> (Undefined u, c')
               | (Out_of_fuel, c') \<Rightarrow> (Out_of_fuel, c'))
         else (Err (ERROR c (Unrecognized_or_forbidden_escape (byte_at (input c) (p + 1)))), c))
      else (Ok (out, i), c))"
  by pat_completeness auto
termination
  by (relation "measure (\<lambda>(c, e, p, out, i). e - p)") auto

declare decode_loop.simps [simp del]

text \<open>
  \<open>released fr h er c\<close>: the frees \<open>fr\<close> that a failing path runs on heap \<open>h\<close>, then the
  return of the error.
\<close>

definition released :: "ub + heap \<Rightarrow> heap \<Rightarrow> error \<Rightarrow> ctx \<Rightarrow> 'a res \<times> ctx \<times> heap" where
  "released fr h er c = (case fr of Inl u \<Rightarrow> (Undefined u, c, h) | Inr h' \<Rightarrow> (Err er, c, h'))"

text \<open>
  \<^verbatim>\<open>p_string\<close> returns the buffer: its address and the bytes before the terminator
  that the last assignment \<^verbatim>\<open>out[i] = 0\<close> writes.  The length is computed in \<^verbatim>\<open>size_t\<close>;
  the count never exceeds the distance, so the subtraction does not wrap.
\<close>

definition p_string :: "ctx \<Rightarrow> heap \<Rightarrow> (addr \<times> string) res \<times> ctx \<times> heap" where
  "p_string c h =
     (case p_char c of
        None \<Rightarrow> (Err (ERROR c Expected_string_got_end_of_input), c, h)
      | Some (start, c1) \<Rightarrow>
          if byte_at (input c1) start \<noteq> CHR 0x22
          then (Err (ERROR c1 Malformed_string_missing_quote), c1, h)
          else
            (case string_scan c1 0 of
               (Ok (end1, num_escaped), c2) \<Rightarrow>
                 (let start1 = start + 1;
                      len = end1 - start1 - num_escaped + 1;
                      (out, h1) = CALLOC h
                  in case decode_loop c2 end1 start1 (replicate len (CHR 0x00)) 0 of
                       (Ok (buf, i), c3) \<Rightarrow>
                         (case store buf i (CHR 0x00) of
                            None \<Rightarrow> (Undefined Heap_overflow, c3, h1)
                          | Some buf' \<Rightarrow> (Ok (out, take i buf'), c3, h1))
                     | (Err er, c3) \<Rightarrow> released (free out h1) h1 er c3
                     | (Undefined u, c3) \<Rightarrow> (Undefined u, c3, h1)
                     | (Out_of_fuel, c3) \<Rightarrow> (Out_of_fuel, c3, h1))
             | (Err er, c2) \<Rightarrow> (Err er, c2, h)
             | (Undefined u, c2) \<Rightarrow> (Undefined u, c2, h)
             | (Out_of_fuel, c2) \<Rightarrow> (Out_of_fuel, c2, h)))"

section \<open>Arrays, dictionaries and values\<close>

text \<open>The macro \<^verbatim>\<open>BURY\<close> of \<^verbatim>\<open>p_dict\<close>, for the \<^verbatim>\<open>n_elts\<close> entries stored so far.\<close>

definition BURY :: "addr \<Rightarrow> addr \<Rightarrow> addr \<Rightarrow> (addr \<times> string \<times> dson_value) list \<Rightarrow> heap \<Rightarrow> ub + heap" where
  "BURY ks vls dict es h =
     (case dict_free_loop es h of Inl u \<Rightarrow> Inl u
      | Inr h1 \<Rightarrow> (case free ks h1 of Inl u \<Rightarrow> Inl u
      | Inr h2 \<Rightarrow> (case free vls h2 of Inl u \<Rightarrow> Inl u
      | Inr h3 \<Rightarrow> free dict h3)))"

text \<open>
  The end of \<^verbatim>\<open>p_value\<close>: \<^verbatim>\<open>if (failed != NULL) { free(ret); return failed; } *out = ret;\<close>
  where \<open>mk\<close> fills the payload of \<^verbatim>\<open>ret\<close>.
\<close>

definition p_value_end :: "addr \<Rightarrow> ('a \<Rightarrow> dson_value) \<Rightarrow> 'a res \<times> ctx \<times> heap \<Rightarrow> dson_value res \<times> ctx \<times> heap" where
  "p_value_end ret mk r =
     (case r of
        (Ok x, c, h) \<Rightarrow> (Ok (mk x), c, h)
      | (Err er, c, h) \<Rightarrow> released (free ret h) h er c
      | (Undefined u, c, h) \<Rightarrow> (Undefined u, c, h)
      | (Out_of_fuel, c, h) \<Rightarrow> (Out_of_fuel, c, h))"

definition with_heap :: "heap \<Rightarrow> 'a res \<times> ctx \<Rightarrow> 'a res \<times> ctx \<times> heap" where
  "with_heap h r = (fst r, snd r, h)"

text \<open>
  \<^verbatim>\<open>p_value\<close>, \<^verbatim>\<open>p_array\<close> and \<^verbatim>\<open>p_dict\<close> call each other.  Each body is written
  once, with the functions it calls as parameters: \<open>value_rec\<close> stands for the call of
  \<^verbatim>\<open>p_value\<close>, \<open>array_rec\<close> and \<open>dict_rec\<close> for those of \<^verbatim>\<open>p_array\<close> and \<^verbatim>\<open>p_dict\<close>, and
  \<open>continue\<close> for the next round of a loop, which carries the elements stored so
  far.
\<close>

type_synonym entries = "(addr \<times> string \<times> dson_value) list"

definition p_value_body ::
  "(ctx \<Rightarrow> heap \<Rightarrow> (addr \<times> dson_value list) res \<times> ctx \<times> heap)
    \<Rightarrow> (ctx \<Rightarrow> heap \<Rightarrow> (addr \<times> addr \<times> addr \<times> entries) res \<times> ctx \<times> heap)
    \<Rightarrow> ctx \<Rightarrow> heap \<Rightarrow> dson_value res \<times> ctx \<times> heap" where
  "p_value_body array_rec dict_rec c h =
     (let (ret, h1) = CALLOC h;
          pivot = peek c
      in if pivot = CHR 0x22 then
           p_value_end ret (\<lambda>(sa, str). DSON_STRING ret sa str) (p_string c h1)
         else if pivot = CHR ''-'' \<or> is_octal pivot then
           p_value_end ret (DSON_DOUBLE ret) (with_heap h1 (p_double c))
         else if pivot = CHR ''y'' \<or> pivot = CHR ''n'' then
           p_value_end ret (DSON_BOOL ret) (with_heap h1 (p_bool c))
         else if pivot = CHR ''e'' then
           p_value_end ret (\<lambda>u. DSON_NONE ret) (with_heap h1 (p_empty c))
         else if pivot = CHR ''s'' then
           (if byte_at (input c) (s c + 1) = CHR ''o'' then
              p_value_end ret (\<lambda>(arr, vs). DSON_ARRAY ret arr vs) (array_rec c h1)
            else if byte_at (input c) (s c + 1) = CHR ''u'' then
              p_value_end ret (\<lambda>(d, ks, vls, es). DSON_DICT ret d ks vls es) (dict_rec c h1)
            else released (free ret h1) h1 (ERROR c Unable_to_determine_value_type) c)
         else released (free ret h1) h1 (ERROR c Unable_to_determine_value_type) c)"

definition p_array_body ::
  "(ctx \<Rightarrow> heap \<Rightarrow> addr \<Rightarrow> dson_value list \<Rightarrow> dson_value list res \<times> ctx \<times> heap)
    \<Rightarrow> ctx \<Rightarrow> heap \<Rightarrow> (addr \<times> dson_value list) res \<times> ctx \<times> heap" where
  "p_array_body loop c h =
     (let (array, h1) = CALLOC h in
      case p_chars c 2 of
        None \<Rightarrow> (Err (ERROR c Expected_array_got_end_of_input), c, h1)
      | Some (cur, c1) \<Rightarrow>
          if strncmp (c_str (input c1) cur) ''so'' 2 \<noteq> 0
          then (Err (ERROR c1 Malformed_array_expected_so), c1, h1)
          else
            (let c2 = maybe_p_whitespace c1 in
             case (if peek c2 \<noteq> CHR ''m'' then loop c2 h1 array [] else (Ok [], c2, h1)) of
               (Ok vs, c3, h3) \<Rightarrow>
                 (case p_chars c3 4 of
                    None \<Rightarrow> released (array_free array vs h3) h3 (ERROR c3 End_of_input_while_parsing_array) c3
                  | Some (cur4, c4) \<Rightarrow>
                      if strncmp (c_str (input c4) cur4) ''many'' 4 \<noteq> 0
                      then released (array_free array vs h3) h3 (ERROR c4 Expected_many) c4
                      else (Ok (array, vs), c4, h3))
             | (Err er, c3, h3) \<Rightarrow> (Err er, c3, h3)
             | (Undefined u, c3, h3) \<Rightarrow> (Undefined u, c3, h3)
             | (Out_of_fuel, c3, h3) \<Rightarrow> (Out_of_fuel, c3, h3)))"

definition p_array_loop_body ::
  "(ctx \<Rightarrow> heap \<Rightarrow> dson_value res \<times> ctx \<times> heap)
    \<Rightarrow> (ctx \<Rightarrow> heap \<Rightarrow> addr \<Rightarrow> dson_value list \<Rightarrow> dson_value list res \<times> ctx \<times> heap)
    \<Rightarrow> ctx \<Rightarrow> heap \<Rightarrow> addr \<Rightarrow> dson_value list \<Rightarrow> dson_value list res \<times> ctx \<times> heap" where
  "p_array_loop_body value_rec continue c h array vs =
     (case value_rec c h of
        (Ok v, c1, h1) \<Rightarrow>
          (let c2 = maybe_p_whitespace c1 in
           if peek c2 \<noteq> CHR ''a'' then (Ok (vs @ [v]), c2, h1)
           else
             (case p_chars c2 3 of
                None \<Rightarrow>
                  released (array_free array (vs @ [v]) h1) h1 (ERROR c2 End_of_input_while_parsing_array) c2
              | Some (cur, c3) \<Rightarrow>
                  if strncmp (c_str (input c3) cur) ''and'' 3 = 0
                  then continue (maybe_p_whitespace c3) h1 array (vs @ [v])
                  else if strncmp (c_str (input c3) cur) ''als'' 3 \<noteq> 0
                  then released (array_free array (vs @ [v]) h1) h1 (ERROR c3 Tried_to_parse_also) c3
                  else
                    (case p_char c3 of
                       None \<Rightarrow>
                         released (array_free array (vs @ [v]) h1) h1
                           (ERROR c3 End_of_input_while_parsing_array) c3
                     | Some (cur4, c4) \<Rightarrow>
                         if byte_at (input c4) cur4 \<noteq> CHR ''o''
                         then released (array_free array (vs @ [v]) h1) h1 (ERROR c4 Tried_to_parse_also) c4
                         else continue (maybe_p_whitespace c4) h1 array (vs @ [v]))))
      | (Err er, c1, h1) \<Rightarrow> released (array_free array vs h1) h1 er c1
      | (Undefined u, c1, h1) \<Rightarrow> (Undefined u, c1, h1)
      | (Out_of_fuel, c1, h1) \<Rightarrow> (Out_of_fuel, c1, h1))"

definition p_dict_body ::
  "(ctx \<Rightarrow> heap \<Rightarrow> addr \<Rightarrow> addr \<Rightarrow> addr \<Rightarrow> entries \<Rightarrow> entries res \<times> ctx \<times> heap)
    \<Rightarrow> ctx \<Rightarrow> heap \<Rightarrow> (addr \<times> addr \<times> addr \<times> entries) res \<times> ctx \<times> heap" where
  "p_dict_body loop c h =
     (let (ks, h1) = CALLOC h;
          (vls, h2) = CALLOC h1;
          (dict, h3) = CALLOC h2
      in case p_chars c 4 of
           None \<Rightarrow> released (BURY ks vls dict [] h3) h3 (ERROR c Expected_dict_but_got_end_of_input) c
         | Some (cur, c1) \<Rightarrow>
             if strncmp (c_str (input c1) cur) ''such'' 4 \<noteq> 0
             then released (BURY ks vls dict [] h3) h3 (ERROR c1 Expected_such) c1
             else
               (case loop c1 h3 ks vls dict [] of
                  (Ok es, c2, h4) \<Rightarrow>
                    (case p_chars c2 3 of
                       None \<Rightarrow>
                         released (BURY ks vls dict es h4) h4
                           (ERROR c2 End_of_input_while_looking_for_closing_wow) c2
                     | Some (cur3, c3) \<Rightarrow>
                         if strncmp (c_str (input c3) cur3) ''wow'' 3 \<noteq> 0
                         then released (BURY ks vls dict es h4) h4 (ERROR c3 Expected_wow) c3
                         else (Ok (dict, ks, vls, es), c3, h4))
                | (Err er, c2, h4) \<Rightarrow> (Err er, c2, h4)
                | (Undefined u, c2, h4) \<Rightarrow> (Undefined u, c2, h4)
                | (Out_of_fuel, c2, h4) \<Rightarrow> (Out_of_fuel, c2, h4)))"

definition p_dict_loop_body ::
  "(ctx \<Rightarrow> heap \<Rightarrow> dson_value res \<times> ctx \<times> heap)
    \<Rightarrow> (ctx \<Rightarrow> heap \<Rightarrow> addr \<Rightarrow> addr \<Rightarrow> addr \<Rightarrow> entries \<Rightarrow> entries res \<times> ctx \<times> heap)
    \<Rightarrow> ctx \<Rightarrow> heap \<Rightarrow> addr \<Rightarrow> addr \<Rightarrow> addr \<Rightarrow> entries \<Rightarrow> entries res \<times> ctx \<times> heap" where
  "p_dict_loop_body value_rec continue c h ks vls dict es =
     (case p_string (maybe_p_whitespace c) h of
        (Ok (ka, k), c2, h2) \<Rightarrow>
          (let c3 = maybe_p_whitespace c2 in
           case p_chars c3 2 of
             None \<Rightarrow> released (BURY ks vls dict es h2) h2 (ERROR c3 End_of_input_while_reading_dict) c3
           | Some (cur, c4) \<Rightarrow>
               if strncmp (c_str (input c4) cur) ''is'' 2 \<noteq> 0
               then released (BURY ks vls dict es h2) h2 (ERROR c4 Expected_is) c4
               else
                 (case value_rec (maybe_p_whitespace c4) h2 of
                    (Ok v, c6, h6) \<Rightarrow>
                      (let c7 = maybe_p_whitespace c6;
                           pivot = peek c7
                       in if pivot = CHR '','' \<or> pivot = CHR ''.'' \<or> pivot = CHR ''!'' \<or> pivot = CHR ''?''
                          then continue (skip_char c7) h6 ks vls dict (es @ [(ka, k, v)])
                          else (Ok (es @ [(ka, k, v)]), c7, h6))
                  | (Err er, c6, h6) \<Rightarrow> released (BURY ks vls dict es h6) h6 er c6
                  | (Undefined u, c6, h6) \<Rightarrow> (Undefined u, c6, h6)
                  | (Out_of_fuel, c6, h6) \<Rightarrow> (Out_of_fuel, c6, h6)))
      | (Err er, c2, h2) \<Rightarrow> released (BURY ks vls dict es h2) h2 er c2
      | (Undefined u, c2, h2) \<Rightarrow> (Undefined u, c2, h2)
      | (Out_of_fuel, c2, h2) \<Rightarrow> (Out_of_fuel, c2, h2))"

text \<open>
  The recursion itself runs on fuel: every call passes one unit less, and a call
  without fuel gives up.  \<open>dson_parse\<close> below supplies \<open>2 * length + 1\<close>, which
  \<open>p_value_enough_fuel\<close> shows to be enough.
\<close>

fun p_value :: "nat \<Rightarrow> ctx \<Rightarrow> heap \<Rightarrow> dson_value res \<times> ctx \<times> heap"
  and p_array :: "nat \<Rightarrow> ctx \<Rightarrow> heap \<Rightarrow> (addr \<times> dson_value list) res \<times> ctx \<times> heap"
  and p_array_loop :: "nat \<Rightarrow> ctx \<Rightarrow> heap \<Rightarrow> addr \<Rightarrow> dson_value list \<Rightarrow> dson_value list res \<times> ctx \<times> heap"
  and p_dict :: "nat \<Rightarrow> ctx \<Rightarrow> heap \<Rightarrow> (addr \<times> addr \<times> addr \<times> entries) res \<times> ctx \<times> heap"
  and p_dict_loop :: "nat \<Rightarrow> ctx \<Rightarrow> heap \<Rightarrow> addr \<Rightarrow> addr \<Rightarrow> addr \<Rightarrow> entries \<Rightarrow> entries res \<times> ctx \<times> heap"
where
  "p_value 0 c h = (Out_of_fuel, c, h)"
| "p_value (Suc f) c h = p_value_body (p_array f) (p_dict f) c h"
| "p_array 0 c h = (Out_of_fuel, c, h)"
| "p_array (Suc f) c h = p_array_body (p_array_loop f) c h"
| "p_array_loop 0 c h array vs = (Out_of_fuel, c, h)"
| "p_array_loop (Suc f) c h array vs = p_array_loop_body (p_value f) (p_array_loop f) c h array vs"
| "p_dict 0 c h = (Out_of_fuel, c, h)"
| "p_dict (Suc f) c h = p_dict_body (p_dict_loop f) c h"
| "p_dict_loop 0 c h ks vls dict es = (Out_of_fuel, c, h)"
| "p_dict_loop (Suc f) c h ks vls dict es =
     p_dict_loop_body (p_value f) (p_dict_loop f) c h ks vls dict es"

section \<open>The entry point\<close>

text \<open>
  \<^verbatim>\<open>char *dson_parse(const char *input, size_t length, bool unsafe, dson_value **out)\<close>.
  \<open>buf\<close> is the caller's buffer, \<open>len\<close> the declared length.  A call returns the message
  (\<open>None\<close> is \<^verbatim>\<open>NULL\<close>) and leaves a value in \<^verbatim>\<open>*out\<close> (\<open>None\<close> is \<^verbatim>\<open>NULL\<close>).  Reading
  \<^verbatim>\<open>input[length]\<close> beyond the buffer is undefined.
\<close>

datatype outcome = Returns "error option" "dson_value option" | Undefined_behaviour ub | No_fuel

definition dson_parse :: "string \<Rightarrow> nat \<Rightarrow> bool \<Rightarrow> heap \<Rightarrow> outcome \<times> heap" where
  "dson_parse buf len unsafe_flag h =
     (if \<not> len < length buf then (Undefined_behaviour Out_of_bounds_read, h)
      else if buf ! len \<noteq> CHR 0x00 then (Returns (Some Input_was_not_NUL_terminated) None, h)
      else
        (case p_value (2 * len + 1) \<lparr>input = take len buf, s = 0, unsafe = unsafe_flag\<rparr> h of
           (Ok ret, c, h') \<Rightarrow> (Returns None (Some ret), h')
         | (Err er, c, h') \<Rightarrow> (Returns (Some er) None, h')
         | (Undefined u, c, h') \<Rightarrow> (Undefined_behaviour u, h')
         | (Out_of_fuel, c, h') \<Rightarrow> (No_fuel, h')))"

section \<open>Dictionary lookup\<close>

text \<open>
  \<^verbatim>\<open>dson_dict_get\<close> is defined in \<^verbatim>\<open>cdson.c\<close>.  Its local \<^verbatim>\<open>v\<close> is declared without
  an initial value, so until the loop assigns it the value is indeterminate.
  \<^verbatim>\<open>strcoll\<close> is taken in the C locale, where it is \<^verbatim>\<open>strcmp\<close>; both arguments are C
  strings.  The loop runs over \<^verbatim>\<open>keys[i]\<close> and \<^verbatim>\<open>values[i]\<close>, the entries of the model.
\<close>

datatype 'a pointer = NULL | Pointer 'a | Indeterminate

definition strcoll :: "string \<Rightarrow> string \<Rightarrow> int" where
  "strcoll a b = strcmp (c_str a 0) (c_str b 0)"

fun dson_dict_get_loop :: "entries \<Rightarrow> string \<Rightarrow> dson_value pointer \<Rightarrow> dson_value pointer" where
  "dson_dict_get_loop [] key v = v"
| "dson_dict_get_loop (e # es) key v =
     dson_dict_get_loop es key (if strcoll key (fst (snd e)) = 0 then Pointer (snd (snd e)) else v)"

definition dson_dict_get :: "entries option \<Rightarrow> string \<Rightarrow> dson_value pointer" where
  "dson_dict_get d key =
     (case d of None \<Rightarrow> NULL | Some es \<Rightarrow> dson_dict_get_loop es key Indeterminate)"

section \<open>The claim's reading of the encoder\<close>


section \<open>What a step of the parser may do to the cursor\<close>

text \<open>
  \<open>follows c c'\<close>: the cursor \<open>c'\<close> that a function called at \<open>c\<close> leaves has the same
  input and flag, an offset that is not smaller, and within the input if it was.
  \<open>reports x c'\<close>: when the result \<open>x\<close> is an error, it names the offset of \<open>c'\<close>.
\<close>

definition follows :: "ctx \<Rightarrow> ctx \<Rightarrow> bool" where
  "follows c c' \<longleftrightarrow>
     input c' = input c \<and> unsafe c' = unsafe c \<and> s c \<le> s c'
     \<and> (s c \<le> s_end c \<longrightarrow> s c' \<le> s_end c')"

definition reports :: "'a res \<Rightarrow> ctx \<Rightarrow> bool" where
  "reports x c' \<longleftrightarrow> (case x of Err er \<Rightarrow> (\<exists>m. er = At (s c') m) | _ \<Rightarrow> True)"

definition tracks :: "ctx \<Rightarrow> 'a res \<times> ctx \<Rightarrow> bool" where
  "tracks c r \<longleftrightarrow> follows c (snd r) \<and> reports (fst r) (snd r)"

definition tracks3 :: "ctx \<Rightarrow> 'a res \<times> ctx \<times> heap \<Rightarrow> bool" where
  "tracks3 c r \<longleftrightarrow> tracks c (fst r, fst (snd r))"

section \<open>Errors with and without a position\<close>

text \<open>An error is position-annotated when it carries the offset of the cursor.\<close>

definition position_annotated :: "error \<Rightarrow> bool" where
  "position_annotated er = (case er of At p m \<Rightarrow> True | Input_was_not_NUL_terminated \<Rightarrow> False)"

section \<open>The blocks of a value tree\<close>

text \<open>
  The addresses of all the blocks a value owns: its own block, the buffers and pointer
  arrays it points to, and the blocks of the values below it.
\<close>

fun blocks :: "dson_value \<Rightarrow> addr list"
  and blocks_list :: "dson_value list \<Rightarrow> addr list"
  and blocks_entries :: "entries \<Rightarrow> addr list"
where
  "blocks (DSON_STRING a sa str) = [sa, a]"
| "blocks (DSON_DOUBLE a n) = [a]"
| "blocks (DSON_BOOL a b) = [a]"
| "blocks (DSON_NONE a) = [a]"
| "blocks (DSON_ARRAY a arr vs) = blocks_list vs @ [arr, a]"
| "blocks (DSON_DICT a d ks vls es) = blocks_entries es @ [ks, vls, d, a]"
| "blocks_list [] = []"
| "blocks_list (v # vs) = blocks v @ blocks_list vs"
| "blocks_entries [] = []"
| "blocks_entries (e # es) = fst e # blocks (snd (snd e)) @ blocks_entries es"

section \<open>The escapes as the specification lists them\<close>

text \<open>
  The character an escape stands for, by the specification's table: the quote, the
  backslash and the slash stand for themselves; \<^verbatim>\<open>\b\<close> is the backspace when the flag
  allows unsafe escapes; \<^verbatim>\<open>\f\<close>, \<^verbatim>\<open>\n\<close>, \<^verbatim>\<open>\r\<close>, \<^verbatim>\<open>\t\<close> are the usual control
  characters whatever the flag; anything else is refused.  (\<^verbatim>\<open>\u\<close> is refused without
  the flag; with it, it does not stand for one character and is not in this table.)
  This definition is compared with the second loop of \<open>p_string\<close> below.
\<close>

definition spec_escape :: "bool \<Rightarrow> char \<Rightarrow> char option" where
  "spec_escape unsafe_flag x =
     (if x = CHR 0x22 \<or> x = CHR 0x5C \<or> x = CHR ''/'' then Some x
      else if x = CHR ''b'' then (if unsafe_flag then Some (CHR 0x08) else None)
      else if x = CHR ''f'' then Some (CHR 0x0C)
      else if x = CHR ''n'' then Some (CHR 0x0A)
      else if x = CHR ''r'' then Some (CHR 0x0D)
      else if x = CHR ''t'' then Some (CHR 0x09)
      else None)"

section \<open>Numbers as the specification describes them\<close>







section \<open>Every step follows the cursor\<close>

lemma follows_refl: "follows c c"
  by (simp add: follows_def)

lemma follows_trans: "follows c c1 \<Longrightarrow> follows c1 c2 \<Longrightarrow> follows c c2"
  by (auto simp: follows_def s_end_def)

lemma reports_simps:
  "reports (Ok x) c" "reports (Undefined u) c" "reports Out_of_fuel c"
  "reports (Err (ERROR c m)) c"
  by (simp_all add: reports_def ERROR_def beginning_def)

lemma p_chars_Some:
  "p_chars c n = Some (cur, c') \<Longrightarrow> cur = s c \<and> c' = c\<lparr>s := s c + n\<rparr> \<and> s c + n \<le> length (input c)"
  by (auto simp: p_chars_def s_end_def split: if_splits)

lemma p_chars_follows: "p_chars c n = Some (cur, c') \<Longrightarrow> follows c c'"
  by (auto simp: follows_def s_end_def dest!: p_chars_Some)

lemma p_char_follows: "p_char c = Some (cur, c') \<Longrightarrow> follows c c'"
  unfolding p_char_def by (rule p_chars_follows)

lemma skip_char_follows: "follows c (skip_char c)"
  by (auto simp: skip_char_def follows_refl p_char_follows split: option.splits)

lemma maybe_p_whitespace_stop:
  "peek c = CHR 0x00 \<or> peek c \<notin> set whitespace \<Longrightarrow> maybe_p_whitespace c = c"
  by (subst maybe_p_whitespace.simps) simp

lemma maybe_p_whitespace_step:
  "\<not> (peek c = CHR 0x00 \<or> peek c \<notin> set whitespace) \<Longrightarrow>
   maybe_p_whitespace c = maybe_p_whitespace (skip_char c)"
  by (subst maybe_p_whitespace.simps) simp

lemma p_octal_loop_stop: "\<not> is_octal (peek c) \<Longrightarrow> p_octal_loop c n = (n, c)"
  by (subst p_octal_loop.simps) simp

lemma p_octal_loop_step:
  "is_octal (peek c) \<Longrightarrow>
   p_octal_loop c n = p_octal_loop (skip_char c) (n * 8 + real_of_int (digit (peek c)))"
  by (subst p_octal_loop.simps) simp

lemma frac_loop_stop: "\<not> is_octal (peek c) \<Longrightarrow> frac_loop c n d = (Ok n, c)"
  by (subst frac_loop.simps) simp

lemma frac_loop_step:
  "is_octal (peek c) \<Longrightarrow> p_char c = Some (cur, c') \<Longrightarrow>
   frac_loop c n d = frac_loop c' (n + real_of_int (digit (byte_at (input c') cur)) / d) (d * 2)"
  by (subst frac_loop.simps) simp

lemma frac_loop_null: "is_octal (peek c) \<Longrightarrow> p_char c = None \<Longrightarrow>
   frac_loop c n d = (Undefined Null_dereference, c)"
  by (subst frac_loop.simps) simp

lemma maybe_p_whitespace_follows: "follows c (maybe_p_whitespace c)"
proof (induction c rule: maybe_p_whitespace.induct)
  case (1 c)
  show ?case
  proof (cases "peek c = CHR 0x00 \<or> peek c \<notin> set whitespace")
    case True
    then show ?thesis by (simp add: maybe_p_whitespace_stop follows_refl)
  next
    case False
    then have "follows (skip_char c) (maybe_p_whitespace (skip_char c))"
      using 1 by simp
    then have "follows c (maybe_p_whitespace (skip_char c))"
      using skip_char_follows [of c] follows_trans by blast
    then show ?thesis
      using False by (simp add: maybe_p_whitespace_step)
  qed
qed

lemma p_empty_tracks: "tracks c (p_empty c)"
  by (auto simp: p_empty_def tracks_def reports_simps follows_refl p_chars_follows
           split: option.splits)

lemma p_octal_loop_follows: "follows c (snd (p_octal_loop c n))"
proof (induction c n rule: p_octal_loop.induct)
  case (1 c n)
  show ?case
  proof (cases "is_octal (peek c)")
    case True
    then have "follows (skip_char c) (snd (p_octal_loop c n))"
      using 1 by (simp add: p_octal_loop_step)
    then show ?thesis
      using skip_char_follows [of c] follows_trans by blast
  next
    case False
    then show ?thesis
      by (simp add: p_octal_loop_stop follows_refl)
  qed
qed

lemma p_octal_follows: "follows c (snd (p_octal c))"
  by (simp add: p_octal_def p_octal_loop_follows)

lemma frac_loop_tracks: "tracks c (frac_loop c n d)"
proof (induction c n d rule: frac_loop.induct)
  case (1 c n d)
  show ?case
  proof (cases "is_octal (peek c)")
    case False
    then show ?thesis
      by (simp add: frac_loop_stop tracks_def follows_refl reports_simps)
  next
    case True
    show ?thesis
    proof (cases "p_char c")
      case None
      then show ?thesis
        using True by (simp add: frac_loop_null tracks_def follows_refl reports_simps)
    next
      case (Some a)
      obtain cur c' where a: "a = (cur, c')" by (cases a)
      have "tracks c' (frac_loop c' (n + real_of_int (digit (byte_at (input c') cur)) / d) (d * 2))"
        using 1 True Some a by simp
      then have "tracks c (frac_loop c' (n + real_of_int (digit (byte_at (input c') cur)) / d) (d * 2))"
        using p_char_follows [of c cur c'] Some a follows_trans by (auto simp: tracks_def)
      then show ?thesis
        using True Some a by (simp add: frac_loop_step)
    qed
  qed
qed

lemma p_bool_tracks: "tracks c (p_bool c)"
proof (cases "p_chars c 2")
  case None
  then show ?thesis
    by (simp add: p_bool_def tracks_def reports_simps follows_refl)
next
  case (Some a)
  obtain cur c1 where a: "a = (cur, c1)" by (cases a)
  have f1: "follows c c1"
    using Some a p_chars_follows by blast
  show ?thesis
  proof (cases "p_char c1")
    case None
    then show ?thesis
      using Some a f1 by (simp add: p_bool_def tracks_def reports_simps)
  next
    case (Some b)
    obtain cur2 c2 where b: "b = (cur2, c2)" by (cases b)
    have "follows c c2"
      using f1 Some b p_char_follows follows_trans by blast
    then show ?thesis
      using \<open>p_chars c 2 = Some a\<close> a Some b f1 by (simp add: p_bool_def tracks_def reports_simps)
  qed
qed

lemma follows_step:
  "follows c c1 \<Longrightarrow> follows c (skip_char c1)"
  "follows c c1 \<Longrightarrow> follows c (maybe_p_whitespace c1)"
  "follows c c1 \<Longrightarrow> follows c (snd (p_octal c1))"
  using skip_char_follows maybe_p_whitespace_follows p_octal_follows follows_trans by blast+

lemma follows_p_chars:
  "p_chars c1 n = Some (cur, c2) \<Longrightarrow> follows c c1 \<Longrightarrow> follows c c2"
  "p_char c1 = Some (cur, c2) \<Longrightarrow> follows c c1 \<Longrightarrow> follows c c2"
  using p_chars_follows p_char_follows follows_trans by blast+

lemma tracks_step: "tracks c1 r \<Longrightarrow> follows c c1 \<Longrightarrow> tracks c r"
  using follows_trans by (auto simp: tracks_def)

lemma tracksI: "follows c c' \<Longrightarrow> reports x c' \<Longrightarrow> tracks c (x, c')"
  by (simp add: tracks_def)

lemma p_double_frac_tracks: "tracks c (p_double_frac c n)"
proof (cases "peek c = CHR ''.'' \<and> is_octal (peek (skip_char c))")
  case False
  then show ?thesis
    by (auto simp: p_double_frac_def tracks_def reports_simps follows_refl follows_step Let_def)
next
  case True
  obtain x c2 where r: "frac_loop (skip_char c) n 8 = (x, c2)"
    by (cases "frac_loop (skip_char c) n 8")
  have t: "follows c c2" "reports x c2"
    using tracks_step [OF frac_loop_tracks [of "skip_char c" n 8], of c] r
    by (simp_all add: tracks_def follows_step follows_refl)
  then show ?thesis
    using True r
    by (cases x) (simp_all add: p_double_frac_def tracks_def reports_simps Let_def follows_step)
qed

lemma p_double_very_tracks: "tracks c (p_double_very c n)"
proof (cases "p_chars c 4")
  case None
  then show ?thesis
    by (simp add: p_double_very_def tracks_def reports_simps follows_refl)
next
  case (Some a)
  obtain cur c1 where a: "a = (cur, c1)" by (cases a)
  have f1: "follows c c1"
    using Some a p_chars_follows by blast
  show ?thesis
    using Some a f1 unfolding p_double_very_def
    by (simp add: tracks_def reports_simps Let_def split_beta follows_step follows_refl)
qed

lemma p_double_tracks: "tracks c (p_double c)"
proof -
  define c1 where "c1 = maybe_p_whitespace (if peek c = CHR ''-'' then skip_char c else c)"
  define nc where "nc = (if peek c1 = CHR ''0'' then (0, skip_char c1) else p_octal c1)"
  define c3 where "c3 = maybe_p_whitespace (snd nc)"
  have f3: "follows c c3"
    by (simp add: c3_def nc_def c1_def follows_step follows_refl)
  obtain x c4 where r: "p_double_frac c3 (fst nc) = (x, c4)"
    by (cases "p_double_frac c3 (fst nc)")
  have t4: "tracks c (x, c4)"
    using tracks_step [OF p_double_frac_tracks [of c3 "fst nc"] f3] r by simp
  have e: "p_double c =
      (case (x, c4) of
           (Ok n1, c4) \<Rightarrow>
             (case p_double_very c4 n1 of
                (Ok n2, c5) \<Rightarrow> (Ok (if peek c = CHR ''-'' then - n2 else n2), c5)
              | (Err e, c5) \<Rightarrow> (Err e, c5)
              | (Undefined u, c5) \<Rightarrow> (Undefined u, c5)
              | (Out_of_fuel, c5) \<Rightarrow> (Out_of_fuel, c5))
         | (Err e, c4) \<Rightarrow> (Err e, c4)
         | (Undefined u, c4) \<Rightarrow> (Undefined u, c4)
         | (Out_of_fuel, c4) \<Rightarrow> (Out_of_fuel, c4))"
    unfolding p_double_def Let_def r [symmetric] c3_def nc_def c1_def
    by (simp add: split_beta)
  show ?thesis
  proof (cases x)
    case (Ok n1)
    obtain y c5 where r5: "p_double_very c4 n1 = (y, c5)"
      by (cases "p_double_very c4 n1")
    have "tracks c (y, c5)"
      using tracks_step [OF p_double_very_tracks [of c4 n1], of c] t4 r5 by (simp add: tracks_def)
    then show ?thesis
      using e Ok r5 by (cases y) (simp_all add: tracks_def reports_simps)
  qed (use e t4 in \<open>simp_all add: tracks_def\<close>)
qed

lemma escaped_loop_follows: "follows c (snd (escaped_loop k c acc))"
proof (induction k arbitrary: c acc)
  case 0
  then show ?case by (simp add: follows_refl)
next
  case (Suc k)
  have "follows (snd (p_octal c)) (snd (escaped_loop k (snd (p_octal c)) (fst (p_octal c))))"
    using Suc by simp
  then show ?case
    using p_octal_follows [of c] follows_trans by (auto simp: Let_def split_beta)
qed

lemma write_escaped_tracks: "tracks c (write_escaped c out i acc)"
  by (auto simp: write_escaped_def tracks_def follows_refl reports_simps Let_def
           split: option.splits prod.splits)

lemma handle_escaped_tracks: "tracks c (handle_escaped c out i)"
  unfolding handle_escaped_def Let_def split_beta
  using tracks_step [OF write_escaped_tracks escaped_loop_follows] by blast

lemma string_scan_tracks: "tracks c (string_scan c n)"
proof (induction c n rule: string_scan.induct)
  case (1 c n)
  show ?case
  proof (cases "p_char c")
    case None
    then show ?thesis
      by (subst string_scan.simps) (simp add: tracks_def follows_refl reports_simps)
  next
    case (Some a)
    obtain e1 c1 where a: "a = (e1, c1)" by (cases a)
    have f1: "follows c c1"
      using Some a p_char_follows by blast
    show ?thesis
    proof (cases "byte_at (input c1) e1 = CHR 0x22")
      case True
      then show ?thesis
        using Some a f1 by (subst string_scan.simps) (simp add: tracks_def reports_simps)
    next
      case q: False
      show ?thesis
      proof (cases "byte_at (input c1) e1 = CHR 0x5C")
        case False
        have "tracks c1 (string_scan c1 n)"
          using 1(3) Some a q False by auto
        then have "tracks c (string_scan c1 n)"
          using f1 by (rule tracks_step)
        then show ?thesis
          using Some a q False
          by (subst string_scan.simps) simp
      next
        case bsl: True
        show ?thesis
        proof (cases "p_char c1")
          case None
          then show ?thesis
            using Some a q bsl f1 by (subst string_scan.simps) (simp add: tracks_def reports_simps)
        next
          case (Some b)
          obtain e2 c2 where b: "b = (e2, c2)" by (cases b)
          have f2: "follows c c2"
            using Some b f1 follows_p_chars by blast
          show ?thesis
          proof (cases "byte_at (input c2) e2 = CHR ''u''")
            case False
            have "tracks c2 (string_scan c2 (n + 1))"
              using 1(2) \<open>p_char c = Some a\<close> a q bsl Some b False by auto
            then have "tracks c (string_scan c2 (n + 1))"
              using f2 by (rule tracks_step)
            then show ?thesis
              using \<open>p_char c = Some a\<close> a q bsl Some b False
              by (subst string_scan.simps) simp
          next
            case u: True
            show ?thesis
            proof (cases "p_chars c2 6")
              case None
              then show ?thesis
                using \<open>p_char c = Some a\<close> a q bsl Some b u f2
                by (subst string_scan.simps) (simp add: tracks_def reports_simps)
            next
              case (Some d)
              obtain e3 c3 where d: "d = (e3, c3)" by (cases d)
              have f3: "follows c c3"
                using Some d f2 follows_p_chars by blast
              have "tracks c3 (string_scan c3 (n + 1 + 2))"
                using 1(1) \<open>p_char c = Some a\<close> a q bsl \<open>p_char c1 = Some b\<close> b u Some d by auto
              then have "tracks c (string_scan c3 (n + 1 + 2))"
                using f3 by (rule tracks_step)
              then show ?thesis
                using \<open>p_char c = Some a\<close> a q bsl \<open>p_char c1 = Some b\<close> b u Some d
                by (subst string_scan.simps) simp
            qed
          qed
        qed
      qed
    qed
  qed
qed

lemma emit_tracks:
  "follows c0 c \<Longrightarrow> (\<And>out' i'. tracks c0 (k out' i')) \<Longrightarrow> tracks c0 (emit out i ch c k)"
  by (simp add: emit_def tracks_def reports_simps split: option.splits)

lemma decode_escape_tracks:
  assumes "\<And>c' out' i'. tracks c' (decode_loop c' e p' out' i')"
  shows "tracks c (case handle_escaped c out i of
                 (Ok (out', i'), c') \<Rightarrow> decode_loop c' e p' out' i'
               | (Err er, c') \<Rightarrow> (Err er, c')
               | (Undefined u, c') \<Rightarrow> (Undefined u, c')
               | (Out_of_fuel, c') \<Rightarrow> (Out_of_fuel, c'))"
proof -
  obtain x c' where r: "handle_escaped c out i = (x, c')"
    by (cases "handle_escaped c out i")
  have t: "tracks c (x, c')"
    using handle_escaped_tracks [of c out i] r by simp
  show ?thesis
  proof (cases x)
    case (Ok a)
    have "tracks c (decode_loop c' e p' (fst a) (snd a))"
      using tracks_step [OF assms, of c c'] t by (simp add: tracks_def)
    then show ?thesis
      using r Ok by (simp add: split_beta)
  qed (use r t in \<open>simp_all add: tracks_def\<close>)
qed

lemma tracks_ERROR: "tracks c (Err (ERROR c m), c)"
  by (simp add: tracks_def follows_refl reports_simps)

lemma decode_loop_tracks: "tracks c (decode_loop c e p out i)"
proof (induction "e - p" arbitrary: c p out i rule: less_induct)
  case less
  show ?case
  proof (cases "p < e")
    case False
    then show ?thesis
      by (subst decode_loop.simps) (simp add: tracks_def follows_refl reports_simps)
  next
    case True
    have IH1: "\<And>c' out' i'. tracks c' (decode_loop c' e (p + 1) out' i')"
      using less [of "p + 1"] True by simp
    have IH2: "\<And>c' out' i'. tracks c' (decode_loop c' e (p + 2) out' i')"
      using less [of "p + 2"] True by simp
    have E1: "\<And>ch. tracks c (emit out i ch c (decode_loop c e (p + 1)))"
      by (rule emit_tracks) (rule follows_refl, rule IH1)
    have E2: "\<And>ch. tracks c (emit out i ch c (decode_loop c e (p + 2)))"
      by (rule emit_tracks) (rule follows_refl, rule IH2)
    have U: "tracks c (case handle_escaped c out i of
                 (Ok (out', i'), c') \<Rightarrow> decode_loop c' e (p + 2) out' i'
               | (Err er, c') \<Rightarrow> (Err er, c')
               | (Undefined u, c') \<Rightarrow> (Undefined u, c')
               | (Out_of_fuel, c') \<Rightarrow> (Out_of_fuel, c'))"
      by (rule decode_escape_tracks) (rule IH2)
    show ?thesis
      using True E1 E2 U by (subst decode_loop.simps) (simp add: tracks_ERROR)
  qed
qed

lemma reports_Err: "reports (Err er) c' \<longleftrightarrow> (\<exists>m. er = At (s c') m)"
  by (simp add: reports_def)

lemma released_tracks3:
  "follows c c' \<Longrightarrow> \<exists>m. er = At (s c') m \<Longrightarrow> tracks3 c (released fr h er c')"
  by (auto simp: released_def tracks3_def tracks_def reports_simps reports_Err split: sum.splits)

lemma released_ERROR_tracks3:
  "follows c c' \<Longrightarrow> tracks3 c (released fr h (ERROR c' m) c')"
  by (rule released_tracks3) (simp_all add: ERROR_def beginning_def)

lemma tracks3I: "tracks c (x, c') \<Longrightarrow> tracks3 c (x, c', h)"
  by (simp add: tracks3_def)

lemma tracks3_step: "tracks3 c1 r \<Longrightarrow> follows c c1 \<Longrightarrow> tracks3 c r"
  unfolding tracks3_def by (rule tracks_step)

lemma p_string_unfold:
  "p_char c = Some (start, c1) \<Longrightarrow> byte_at (input c1) start = CHR 0x22 \<Longrightarrow>
   string_scan c1 0 = (Ok (end1, ne), c2) \<Longrightarrow>
   decode_loop c2 end1 (start + 1) (replicate (end1 - (start + 1) - ne + 1) (CHR 0x00)) 0 = (y, c3) \<Longrightarrow>
   p_string c h =
     (case y of
        Ok (buf, i) \<Rightarrow>
          (case store buf i (CHR 0x00) of
             None \<Rightarrow> (Undefined Heap_overflow, c3, snd (CALLOC h))
           | Some buf' \<Rightarrow> (Ok (fst (CALLOC h), take i buf'), c3, snd (CALLOC h)))
      | Err er \<Rightarrow> released (free (fst (CALLOC h)) (snd (CALLOC h))) (snd (CALLOC h)) er c3
      | Undefined u \<Rightarrow> (Undefined u, c3, snd (CALLOC h))
      | Out_of_fuel \<Rightarrow> (Out_of_fuel, c3, snd (CALLOC h)))"
  by (cases y) (simp_all add: p_string_def Let_def split_beta split: option.splits)

lemma p_string_tracks: "tracks3 c (p_string c h)"
proof (cases "p_char c")
  case None
  then show ?thesis
    by (simp add: p_string_def tracks3_def tracks_def follows_refl reports_simps)
next
  case (Some a)
  obtain start c1 where a: "a = (start, c1)" by (cases a)
  have f1: "follows c c1"
    using Some a p_char_follows by blast
  show ?thesis
  proof (cases "byte_at (input c1) start \<noteq> CHR 0x22")
    case True
    then show ?thesis
      using Some a f1 by (simp add: p_string_def tracks3_def tracks_def reports_simps)
  next
    case False
    obtain x c2 where r: "string_scan c1 0 = (x, c2)"
      by (cases "string_scan c1 0")
    have t2: "tracks c (x, c2)"
      using tracks_step [OF string_scan_tracks f1, of 0] r by simp
    show ?thesis
    proof (cases x)
      case (Ok b)
      obtain end1 ne where b: "b = (end1, ne)" by (cases b)
      obtain y c3 where r3:
        "decode_loop c2 end1 (start + 1) (replicate (end1 - (start + 1) - ne + 1) (CHR 0x00)) 0 = (y, c3)"
        by (cases "decode_loop c2 end1 (start + 1) (replicate (end1 - (start + 1) - ne + 1) (CHR 0x00)) 0")
      have t3: "tracks c (y, c3)"
        using tracks_step [OF decode_loop_tracks
            [of c2 end1 "start + 1" "replicate (end1 - (start + 1) - ne + 1) (CHR 0x00)" 0], of c]
          t2 r3 by (simp add: tracks_def)
      have e: "p_string c h =
         (case y of
            Ok (buf, i) \<Rightarrow>
              (case store buf i (CHR 0x00) of
                 None \<Rightarrow> (Undefined Heap_overflow, c3, snd (CALLOC h))
               | Some buf' \<Rightarrow> (Ok (fst (CALLOC h), take i buf'), c3, snd (CALLOC h)))
          | Err er \<Rightarrow> released (free (fst (CALLOC h)) (snd (CALLOC h))) (snd (CALLOC h)) er c3
          | Undefined u \<Rightarrow> (Undefined u, c3, snd (CALLOC h))
          | Out_of_fuel \<Rightarrow> (Out_of_fuel, c3, snd (CALLOC h)))"
        using Some a False r Ok b r3 by (intro p_string_unfold) simp_all
      show ?thesis
        using t3 unfolding e
        by (cases y)
           (auto simp: tracks3_def tracks_def reports_simps reports_Err released_def
                 split: option.splits sum.splits)
    qed (use Some a False r t2 in \<open>auto simp: p_string_def tracks3_def tracks_def reports_simps reports_Err\<close>)
  qed
qed

lemma follows_update:
  "follows c c1 \<Longrightarrow> s c1 \<le> k \<Longrightarrow> k \<le> length (input c1) \<Longrightarrow> follows c (c1\<lparr>s := k\<rparr>)"
  by (auto simp: follows_def s_end_def)

lemma tracks3_follows: "tracks3 c (x, c', h) \<Longrightarrow> follows c c'"
  by (simp add: tracks3_def tracks_def)

lemma released_At_tracks3:
  "follows c c' \<Longrightarrow> s c' = p \<Longrightarrow> tracks3 c (released fr h (At p m) c')"
  by (rule released_tracks3) simp_all

lemma p_char_Some:
  "p_char c = Some (cur, c') \<Longrightarrow> cur = s c \<and> c' = c\<lparr>s := s c + 1\<rparr> \<and> s c + 1 \<le> length (input c)"
  unfolding p_char_def by (rule p_chars_Some)

lemma tracks3_simps:
  "tracks3 c (Ok x, c', h) \<longleftrightarrow> follows c c'"
  "tracks3 c (Undefined u, c', h) \<longleftrightarrow> follows c c'"
  "tracks3 c (Out_of_fuel, c', h) \<longleftrightarrow> follows c c'"
  "tracks3 c (Err er, c', h) \<longleftrightarrow> follows c c' \<and> (\<exists>m. er = At (s c') m)"
  by (simp_all add: tracks3_def tracks_def reports_simps reports_Err)

lemma ERROR_At: "ERROR c m = At (s c) m"
  by (simp add: ERROR_def beginning_def)

lemma tracks3_ERROR: "tracks3 c (Err (ERROR c' m), c', h) \<longleftrightarrow> follows c c'"
  by (simp add: tracks3_simps ERROR_def beginning_def)

lemma released_tracks3_iff:
  "follows c c' \<Longrightarrow> \<exists>m. er = At (s c') m \<Longrightarrow> tracks3 c (released fr h er c')"
  by (rule released_tracks3)

lemma with_heap_tracks3: "tracks c r \<Longrightarrow> tracks3 c (with_heap h r)"
  by (simp add: with_heap_def tracks3_def)

lemma p_value_end_tracks3: "tracks3 c r \<Longrightarrow> tracks3 c (p_value_end ret mk r)"
proof -
  assume a: "tracks3 c r"
  obtain x c' h' where r: "r = (x, c', h')" by (cases r)
  show ?thesis
    using a unfolding r p_value_end_def
    by (cases x) (auto simp: tracks3_simps intro: released_tracks3)
qed

lemma p_value_body_tracks3:
  assumes "\<And>c h. tracks3 c (array_rec c h)" "\<And>c h. tracks3 c (dict_rec c h)"
  shows "tracks3 c (p_value_body array_rec dict_rec c h)"
  unfolding p_value_body_def Let_def split_beta
  by (simp add: p_value_end_tracks3 with_heap_tracks3 p_string_tracks p_double_tracks
        p_bool_tracks p_empty_tracks assms released_ERROR_tracks3 follows_refl)

lemma p_array_body_tracks3:
  assumes "\<And>c h a vs. tracks3 c (loop c h a vs)"
  shows "tracks3 c (p_array_body loop c h)"
proof (cases "p_chars c 2")
  case None
  then show ?thesis
    by (simp add: p_array_body_def split_beta tracks3_ERROR follows_refl)
next
  case (Some a)
  obtain cur c1 where a: "a = (cur, c1)" by (cases a)
  have f1: "follows c c1"
    using Some a p_chars_follows by blast
  define c2 where "c2 = maybe_p_whitespace c1"
  have f2: "follows c c2"
    by (simp add: c2_def f1 follows_step)
  define r where "r = (if peek c2 \<noteq> CHR ''m'' then loop c2 (snd (CALLOC h)) (fst (CALLOC h)) [] else (Ok [], c2, snd (CALLOC h)))"
  have t: "tracks3 c r"
    using tracks3_step [OF assms f2] f2 by (simp add: r_def tracks3_simps)
  obtain x c3 h3 where r3: "r = (x, c3, h3)" by (cases r)
  have e: "p_array_body loop c h =
     (if strncmp (c_str (input c1) cur) ''so'' 2 \<noteq> 0
          then (Err (ERROR c1 Malformed_array_expected_so), c1, snd (CALLOC h))
          else (case r of
               (Ok vs, c3, h3) \<Rightarrow>
                 (case p_chars c3 4 of
                    None \<Rightarrow> released (array_free (fst (CALLOC h)) vs h3) h3 (ERROR c3 End_of_input_while_parsing_array) c3
                  | Some (cur4, c4) \<Rightarrow>
                      if strncmp (c_str (input c4) cur4) ''many'' 4 \<noteq> 0
                      then released (array_free (fst (CALLOC h)) vs h3) h3 (ERROR c4 Expected_many) c4
                      else (Ok (fst (CALLOC h), vs), c4, h3))
             | (Err er, c3, h3) \<Rightarrow> (Err er, c3, h3)
             | (Undefined u, c3, h3) \<Rightarrow> (Undefined u, c3, h3)
             | (Out_of_fuel, c3, h3) \<Rightarrow> (Out_of_fuel, c3, h3)))"
    unfolding p_array_body_def Let_def r_def c2_def using Some a by (simp add: split_beta)
  show ?thesis
    unfolding e using t f1 unfolding r3
    by (cases x)
       (auto simp: tracks3_simps ERROR_At released_At_tracks3 released_tracks3 follows_update
             split: option.splits dest!: p_chars_Some)
qed

lemma p_array_loop_body_tracks3:
  assumes "\<And>c h. tracks3 c (value_rec c h)" "\<And>c h a vs. tracks3 c (continue c h a vs)"
  shows "tracks3 c (p_array_loop_body value_rec continue c h array vs)"
proof -
  obtain x c1 h1 where r: "value_rec c h = (x, c1, h1)"
    by (cases "value_rec c h")
  have t: "tracks3 c (x, c1, h1)"
    using assms(1) [of c h] r by simp
  have K: "\<And>c' h a vs. follows c c' \<Longrightarrow> tracks3 c (continue c' h a vs)"
    using tracks3_step [OF assms(2)] by blast
  show ?thesis
    unfolding p_array_loop_body_def r using t
    by (cases x)
       (auto simp: tracks3_simps ERROR_At released_At_tracks3 released_tracks3 follows_update follows_step K Let_def
             split: option.splits dest!: p_chars_Some p_char_Some)
qed

lemma BURY_tracks3:
  "follows c c' \<Longrightarrow> \<exists>m. er = At (s c') m \<Longrightarrow> tracks3 c (released fr h er c')"
  by (rule released_tracks3)

lemma p_dict_body_tracks3:
  assumes "\<And>c h ks vls d es. tracks3 c (loop c h ks vls d es)"
  shows "tracks3 c (p_dict_body loop c h)"
proof (cases "p_chars c 4")
  case None
  then show ?thesis
    by (simp add: p_dict_body_def split_beta released_ERROR_tracks3 follows_refl)
next
  case (Some a)
  obtain cur c1 where a: "a = (cur, c1)" by (cases a)
  have f1: "follows c c1"
    using Some a p_chars_follows by blast
  define h3 where "h3 = snd (CALLOC (snd (CALLOC (snd (CALLOC h)))))"
  define ks where "ks = fst (CALLOC h)"
  define vls where "vls = fst (CALLOC (snd (CALLOC h)))"
  define d where "d = fst (CALLOC (snd (CALLOC (snd (CALLOC h)))))"
  obtain x c2 h4 where r: "loop c1 h3 ks vls d [] = (x, c2, h4)"
    by (cases "loop c1 h3 ks vls d []")
  have t: "tracks3 c (x, c2, h4)"
    using tracks3_step [OF assms f1, of h3 ks vls d "[]"] r by simp
  show ?thesis
    unfolding p_dict_body_def Let_def split_beta
    using Some a f1 t r [unfolded h3_def ks_def vls_def d_def]
    by (cases x)
       (auto simp: tracks3_simps ERROR_At released_At_tracks3 released_tracks3 follows_update
             split: option.splits dest!: p_chars_Some)
qed

lemma p_dict_loop_body_tracks3:
  assumes "\<And>c h. tracks3 c (value_rec c h)" "\<And>c h ks vls d es. tracks3 c (continue c h ks vls d es)"
  shows "tracks3 c (p_dict_loop_body value_rec continue c h ks vls dict es)"
proof -
  obtain x c2 h2 where r: "p_string (maybe_p_whitespace c) h = (x, c2, h2)"
    by (cases "p_string (maybe_p_whitespace c) h")
  have t: "tracks3 c (x, c2, h2)"
    using tracks3_step [OF p_string_tracks, of c "maybe_p_whitespace c" h] r
    by (simp add: follows_step follows_refl)
  have V: "\<And>c' h. follows c c' \<Longrightarrow> tracks3 c (value_rec c' h)"
    using tracks3_step [OF assms(1)] by blast
  have K: "\<And>c' h ks vls d es. follows c c' \<Longrightarrow> tracks3 c (continue c' h ks vls d es)"
    using tracks3_step [OF assms(2)] by blast
  show ?thesis
  proof (cases x)
    case (Ok b)
    obtain ka k where b: "b = (ka, k)" by (cases b)
    have f2: "follows c c2"
      using t by (rule tracks3_follows)
    show ?thesis
    proof (cases "p_chars (maybe_p_whitespace c2) 2")
      case None
      then show ?thesis
        unfolding p_dict_loop_body_def r Ok b using f2
        by (simp add: Let_def released_ERROR_tracks3 follows_step)
    next
      case (Some a)
      obtain cur c4 where a: "a = (cur, c4)" by (cases a)
      have f4: "follows c c4"
        using Some a f2 follows_p_chars follows_step by blast
      obtain y c6 h6 where r6: "value_rec (maybe_p_whitespace c4) h2 = (y, c6, h6)"
        by (cases "value_rec (maybe_p_whitespace c4) h2")
      have t6: "tracks3 c (y, c6, h6)"
        using V [of "maybe_p_whitespace c4" h2] r6 f4 by (simp add: follows_step)
      show ?thesis
        unfolding p_dict_loop_body_def r Ok b using Some a f4 t6 r6
        by (cases y)
           (auto simp: tracks3_simps ERROR_At released_At_tracks3 released_tracks3 follows_update
                       follows_step K Let_def)
    qed
  qed (use t r in \<open>auto simp: p_dict_loop_body_def tracks3_simps released_tracks3\<close>)
qed

lemma parsers_tracks3:
  "tracks3 c (p_value f c h) \<and> tracks3 c (p_array f c h)
   \<and> tracks3 c (p_array_loop f c h array vs) \<and> tracks3 c (p_dict f c h)
   \<and> tracks3 c (p_dict_loop f c h ks vls dict es)"
proof (induction f arbitrary: c h array vs ks vls dict es)
  case 0
  show ?case
    by (simp add: tracks3_simps follows_refl)
next
  case (Suc f)
  show ?case
    using Suc
    by (simp add: p_value_body_tracks3 p_array_body_tracks3 p_array_loop_body_tracks3
          p_dict_body_tracks3 p_dict_loop_body_tracks3)
qed

section \<open>Enough fuel\<close>

lemma p_empty_fuel: "fst (p_empty c) \<noteq> Out_of_fuel"
  by (simp add: p_empty_def split: option.splits prod.splits)

lemma p_bool_fuel: "fst (p_bool c) \<noteq> Out_of_fuel"
  by (simp add: p_bool_def split: option.splits prod.splits)

lemma frac_loop_fuel: "fst (frac_loop c n d) \<noteq> Out_of_fuel"
proof (induction c n d rule: frac_loop.induct)
  case (1 c n d)
  then show ?case
    by (cases "is_octal (peek c)"; cases "p_char c")
       (auto simp: frac_loop_stop frac_loop_step frac_loop_null)
qed

lemma p_double_frac_fuel: "fst (p_double_frac c n) \<noteq> Out_of_fuel"
  using frac_loop_fuel [of "skip_char c" n 8]
  by (auto simp: p_double_frac_def Let_def split: prod.splits res.splits)

lemma p_double_very_fuel: "fst (p_double_very c n) \<noteq> Out_of_fuel"
  by (auto simp: p_double_very_def Let_def split: option.splits prod.splits)

lemma p_double_fuel: "fst (p_double c) \<noteq> Out_of_fuel"
proof -
  have "\<And>c n. p_double_frac c n \<noteq> (Out_of_fuel, c')" for c'
    using p_double_frac_fuel by (metis fst_conv)
  moreover have "\<And>c n. p_double_very c n \<noteq> (Out_of_fuel, c')" for c'
    using p_double_very_fuel by (metis fst_conv)
  ultimately show ?thesis
    by (auto simp: p_double_def Let_def split: prod.splits res.splits)
qed

lemma string_scan_fuel: "fst (string_scan c n) \<noteq> Out_of_fuel"
proof (induction c n rule: string_scan.induct)
  case (1 c n)
  show ?case
    using 1 by (subst string_scan.simps) (auto split: option.splits)
qed

lemma write_escaped_fuel: "fst (write_escaped c out i acc) \<noteq> Out_of_fuel"
  by (auto simp: write_escaped_def Let_def split: option.splits prod.splits)

lemma handle_escaped_fuel: "fst (handle_escaped c out i) \<noteq> Out_of_fuel"
  by (simp add: handle_escaped_def Let_def split_beta write_escaped_fuel)

lemma emit_fuel:
  "(\<And>out' i'. fst (k out' i') \<noteq> Out_of_fuel) \<Longrightarrow> fst (emit out i ch c k) \<noteq> Out_of_fuel"
  by (simp add: emit_def split: option.splits)

lemma decode_loop_fuel: "fst (decode_loop c e p out i) \<noteq> Out_of_fuel"
proof (induction "e - p" arbitrary: c p out i rule: less_induct)
  case less
  show ?case
  proof (cases "p < e")
    case False
    then show ?thesis
      by (subst decode_loop.simps) simp
  next
    case True
    have IH1: "\<And>c' out' i'. fst (decode_loop c' e (p + 1) out' i') \<noteq> Out_of_fuel"
      using less [of "p + 1"] True by simp
    have IH2: "\<And>c' out' i'. fst (decode_loop c' e (p + 2) out' i') \<noteq> Out_of_fuel"
      using less [of "p + 2"] True by simp
    have E1: "\<And>ch. fst (emit out i ch c (decode_loop c e (p + 1))) \<noteq> Out_of_fuel"
      by (rule emit_fuel) (rule IH1)
    have E2: "\<And>ch. fst (emit out i ch c (decode_loop c e (p + 2))) \<noteq> Out_of_fuel"
      by (rule emit_fuel) (rule IH2)
    have U: "fst (case handle_escaped c out i of
                 (Ok (out', i'), c') \<Rightarrow> decode_loop c' e (p + 2) out' i'
               | (Err er, c') \<Rightarrow> (Err er, c')
               | (Undefined u, c') \<Rightarrow> (Undefined u, c')
               | (Out_of_fuel, c') \<Rightarrow> (Out_of_fuel, c')) \<noteq> Out_of_fuel"
      using handle_escaped_fuel [of c out i] IH2
      by (auto split: prod.splits res.splits)
    show ?thesis
      using True E1 E2 U by (subst decode_loop.simps) simp
  qed
qed

lemma released_fuel: "fst (released fr h er c) \<noteq> Out_of_fuel"
  by (simp add: released_def split: sum.splits)

lemma p_string_fuel: "fst (p_string c h) \<noteq> Out_of_fuel"
proof -
  have "\<And>c n c'. string_scan c n \<noteq> (Out_of_fuel, c')"
    using string_scan_fuel by (metis fst_conv)
  moreover have "\<And>c e p out i c'. decode_loop c e p out i \<noteq> (Out_of_fuel, c')"
    using decode_loop_fuel by (metis fst_conv)
  ultimately show ?thesis
    by (auto simp: p_string_def Let_def released_fuel split: option.splits prod.splits res.splits)
qed

lemma p_value_end_fuel: "fst r \<noteq> Out_of_fuel \<Longrightarrow> fst (p_value_end ret mk r) \<noteq> Out_of_fuel"
  by (cases r; cases "fst r") (auto simp: p_value_end_def released_fuel)

lemma with_heap_fuel: "fst r \<noteq> Out_of_fuel \<Longrightarrow> fst (with_heap h r) \<noteq> Out_of_fuel"
  by (simp add: with_heap_def)

lemma p_value_body_fuel:
  assumes "peek c = CHR ''s'' \<Longrightarrow> fst (array_rec c (snd (CALLOC h))) \<noteq> Out_of_fuel"
    and "peek c = CHR ''s'' \<Longrightarrow> fst (dict_rec c (snd (CALLOC h))) \<noteq> Out_of_fuel"
  shows "fst (p_value_body array_rec dict_rec c h) \<noteq> Out_of_fuel"
  unfolding p_value_body_def Let_def split_beta
  using assms
  by (simp add: p_value_end_fuel with_heap_fuel p_string_fuel p_double_fuel p_bool_fuel
        p_empty_fuel released_fuel)

lemma follows_facts:
  "follows c c' \<Longrightarrow> input c' = input c"
  "follows c c' \<Longrightarrow> s c \<le> s c'"
  "follows c c' \<Longrightarrow> s c \<le> length (input c) \<Longrightarrow> s c' \<le> length (input c)"
  by (auto simp: follows_def s_end_def)

lemma p_array_body_fuel:
  assumes L: "\<And>c' h' a. input c' = input c \<Longrightarrow> s c + 2 \<le> s c' \<Longrightarrow> s c' \<le> length (input c)
                \<Longrightarrow> fst (loop c' h' a []) \<noteq> Out_of_fuel"
  shows "fst (p_array_body loop c h) \<noteq> Out_of_fuel"
proof (cases "p_chars c 2")
  case None
  then show ?thesis
    by (simp add: p_array_body_def split_beta)
next
  case (Some a)
  obtain cur c1 where a: "a = (cur, c1)" by (cases a)
  have c1: "input c1 = input c" "s c1 = s c + 2" "s c1 \<le> length (input c)"
    using Some a by (auto dest!: p_chars_Some)
  define c2 where "c2 = maybe_p_whitespace c1"
  have f: "follows c1 c2"
    by (simp add: c2_def maybe_p_whitespace_follows)
  have "fst (loop c2 (snd (CALLOC h)) (fst (CALLOC h)) []) \<noteq> Out_of_fuel"
    using L [of c2] c1 follows_facts [OF f] by simp
  then show ?thesis
    unfolding p_array_body_def Let_def split_beta c2_def using Some a
    by (auto simp: released_fuel split: option.splits prod.splits res.splits)
qed

lemma p_array_loop_body_fuel:
  assumes VT: "tracks3 c (value_rec c h)"
    and V: "fst (value_rec c h) \<noteq> Out_of_fuel"
    and K: "\<And>c' h' a' vs'. input c' = input c \<Longrightarrow> s c + 3 \<le> s c' \<Longrightarrow> s c' \<le> length (input c)
                \<Longrightarrow> fst (continue c' h' a' vs') \<noteq> Out_of_fuel"
  shows "fst (p_array_loop_body value_rec continue c h array vs) \<noteq> Out_of_fuel"
proof -
  obtain x c1 h1 where r: "value_rec c h = (x, c1, h1)"
    by (cases "value_rec c h")
  have f1: "follows c c1"
    using VT r tracks3_follows by metis
  define c2 where "c2 = maybe_p_whitespace c1"
  have f2: "follows c c2"
    by (simp add: c2_def f1 follows_step)
  have K3: "fst (continue (maybe_p_whitespace (c2\<lparr>s := k\<rparr>)) h' a' vs') \<noteq> Out_of_fuel"
    if "s c2 + 3 \<le> k" "k \<le> length (input c2)" for k h' a' vs'
  proof -
    have "follows (c2\<lparr>s := k\<rparr>) (maybe_p_whitespace (c2\<lparr>s := k\<rparr>))"
      by (rule maybe_p_whitespace_follows)
    then show ?thesis
      using that follows_facts [OF f2] by (intro K) (auto simp: follows_def s_end_def)
  qed
  have K3a: "\<And>h' a' vs'. s (maybe_p_whitespace c1) + 3 \<le> length (input (maybe_p_whitespace c1)) \<Longrightarrow>
      fst (continue (maybe_p_whitespace (maybe_p_whitespace c1\<lparr>s := s (maybe_p_whitespace c1) + 3\<rparr>)) h' a' vs') \<noteq> Out_of_fuel"
    using K3 [of "s c2 + 3"] by (simp add: c2_def)
  have K3b: "\<And>h' a' vs'. 4 + s (maybe_p_whitespace c1) \<le> length (input (maybe_p_whitespace c1)) \<Longrightarrow>
      fst (continue (maybe_p_whitespace (maybe_p_whitespace c1\<lparr>s := 4 + s (maybe_p_whitespace c1)\<rparr>)) h' a' vs') \<noteq> Out_of_fuel"
    using K3 [of "4 + s c2"] by (simp add: c2_def)
  show ?thesis
    unfolding p_array_loop_body_def r Let_def
    using V r K3a K3b
    by (cases x)
       (auto simp: released_fuel split: option.splits dest!: p_chars_Some p_char_Some)
qed

lemma p_dict_body_fuel:
  assumes L: "\<And>c' h' ks vls d. input c' = input c \<Longrightarrow> s c + 4 \<le> s c' \<Longrightarrow> s c' \<le> length (input c)
                \<Longrightarrow> fst (loop c' h' ks vls d []) \<noteq> Out_of_fuel"
  shows "fst (p_dict_body loop c h) \<noteq> Out_of_fuel"
proof (cases "p_chars c 4")
  case None
  then show ?thesis
    by (simp add: p_dict_body_def split_beta released_fuel)
next
  case (Some a)
  obtain cur c1 where a: "a = (cur, c1)" by (cases a)
  have c1: "input c1 = input c" "s c1 = s c + 4" "s c1 \<le> length (input c)"
    using Some a by (auto dest!: p_chars_Some)
  have "\<And>h' ks vls d. fst (loop c1 h' ks vls d []) \<noteq> Out_of_fuel"
    using L [of c1] c1 by simp
  then show ?thesis
    unfolding p_dict_body_def Let_def split_beta using Some a
    by (auto simp: released_fuel split: option.splits prod.splits res.splits)
qed

lemma p_dict_loop_body_fuel:
  assumes VT: "\<And>c h. tracks3 c (value_rec c h)"
    and V: "\<And>c' h'. input c' = input c \<Longrightarrow> s c \<le> s c' \<Longrightarrow> fst (value_rec c' h') \<noteq> Out_of_fuel"
    and K: "\<And>c' h' ks' vls' d' es'. input c' = input c \<Longrightarrow> s c + 2 \<le> s c' \<Longrightarrow> s c' \<le> length (input c)
                \<Longrightarrow> fst (continue c' h' ks' vls' d' es') \<noteq> Out_of_fuel"
  shows "fst (p_dict_loop_body value_rec continue c h ks vls dict es) \<noteq> Out_of_fuel"
proof -
  obtain x c2 h2 where r: "p_string (maybe_p_whitespace c) h = (x, c2, h2)"
    by (cases "p_string (maybe_p_whitespace c) h")
  have f2: "follows c c2"
    using tracks3_follows [of "maybe_p_whitespace c" x c2 h2] p_string_tracks [of "maybe_p_whitespace c" h] r
      maybe_p_whitespace_follows [of c] follows_trans by auto
  have x: "x \<noteq> Out_of_fuel"
    using p_string_fuel [of "maybe_p_whitespace c" h] r by simp
  show ?thesis
  proof (cases x)
    case (Ok b)
    obtain ka k where b: "b = (ka, k)" by (cases b)
    show ?thesis
    proof (cases "p_chars (maybe_p_whitespace c2) 2")
      case None
      then show ?thesis
        unfolding p_dict_loop_body_def r Ok b by (simp add: Let_def released_fuel)
    next
      case (Some a)
      obtain cur c4 where a: "a = (cur, c4)" by (cases a)
      have f3: "follows c (maybe_p_whitespace c2)"
        by (simp add: f2 follows_step)
      have c4: "input c4 = input c" "s c + 2 \<le> s c4" "s c4 \<le> length (input c)"
        using Some a follows_facts [OF f3] by (auto dest!: p_chars_Some)
      define c5 where "c5 = maybe_p_whitespace c4"
      have f5: "follows c4 c5"
        by (simp add: c5_def maybe_p_whitespace_follows)
      obtain y c6 h6 where r6: "value_rec c5 h2 = (y, c6, h6)"
        by (cases "value_rec c5 h2")
      have y: "y \<noteq> Out_of_fuel"
        using V [of c5 h2] r6 c4 follows_facts [OF f5] by simp
      have f6: "follows c5 c6"
        using VT [of c5 h2] r6 tracks3_follows by metis
      define c8 where "c8 = skip_char (maybe_p_whitespace c6)"
      have f8: "follows c6 c8"
        by (simp add: c8_def follows_step follows_refl)
      have "input c8 = input c \<and> s c + 2 \<le> s c8 \<and> s c8 \<le> length (input c)"
        using c4 follows_facts [OF f5] follows_facts [OF f6] follows_facts [OF f8] by simp
      then have k: "\<And>h' ks' vls' d' es'. fst (continue c8 h' ks' vls' d' es') \<noteq> Out_of_fuel"
        using K [of c8] by simp
      show ?thesis
        unfolding p_dict_loop_body_def r Ok b using Some a y r6 [unfolded c5_def] k [unfolded c8_def]
        by (cases y) (auto simp: Let_def released_fuel)
    qed
  qed (use x r in \<open>auto simp: p_dict_loop_body_def released_fuel\<close>)
qed

lemma peek_in_range: "peek c \<noteq> CHR 0x00 \<Longrightarrow> s c < length (input c)"
  by (auto simp: peek_def byte_at_def split: if_splits)

lemma parsers_fuel:
  "(2 * (length (input c) - s c) + 1 \<le> f \<longrightarrow> fst (p_value f c h) \<noteq> Out_of_fuel)
   \<and> (s c < length (input c) \<and> 2 * (length (input c) - s c) \<le> f \<longrightarrow> fst (p_array f c h) \<noteq> Out_of_fuel)
   \<and> (2 * (length (input c) - s c) + 2 \<le> f \<longrightarrow> fst (p_array_loop f c h a vs) \<noteq> Out_of_fuel)
   \<and> (s c < length (input c) \<and> 2 * (length (input c) - s c) \<le> f \<longrightarrow> fst (p_dict f c h) \<noteq> Out_of_fuel)
   \<and> (2 * (length (input c) - s c) + 2 \<le> f \<longrightarrow> fst (p_dict_loop f c h ks vls d es) \<noteq> Out_of_fuel)"
proof (induction f arbitrary: c h a vs ks vls d es)
  case 0
  show ?case by auto
next
  case (Suc f)
  have V: "fst (p_value (Suc f) c h) \<noteq> Out_of_fuel" if "2 * (length (input c) - s c) + 1 \<le> Suc f"
  proof -
    have "fst (p_array f c h') \<noteq> Out_of_fuel" if "peek c = CHR ''s''" for h'
      using Suc [of c h'] peek_in_range [of c] that \<open>2 * (length (input c) - s c) + 1 \<le> Suc f\<close>
      by simp
    moreover have "fst (p_dict f c h') \<noteq> Out_of_fuel" if "peek c = CHR ''s''" for h'
      using Suc [of c h'] peek_in_range [of c] that \<open>2 * (length (input c) - s c) + 1 \<le> Suc f\<close>
      by simp
    ultimately show ?thesis
      by (simp add: p_value_body_fuel)
  qed
  have A: "fst (p_array (Suc f) c h) \<noteq> Out_of_fuel" if "2 * (length (input c) - s c) \<le> Suc f"
  proof -
    have "fst (p_array_loop f c' h' a' []) \<noteq> Out_of_fuel"
      if "input c' = input c" "s c + 2 \<le> s c'" "s c' \<le> length (input c)" for c' h' a'
      using Suc [of c' h' a' "[]"] that \<open>2 * (length (input c) - s c) \<le> Suc f\<close> by simp
    then show ?thesis
      by (simp add: p_array_body_fuel)
  qed
  have AL: "fst (p_array_loop (Suc f) c h a vs) \<noteq> Out_of_fuel"
    if "2 * (length (input c) - s c) + 2 \<le> Suc f"
  proof -
    have "fst (p_value f c h) \<noteq> Out_of_fuel"
      using Suc [of c h] that by simp
    moreover have "fst (p_array_loop f c' h' a' vs') \<noteq> Out_of_fuel"
      if "input c' = input c" "s c + 3 \<le> s c'" "s c' \<le> length (input c)" for c' h' a' vs'
      using Suc [of c' h' a' vs'] that \<open>2 * (length (input c) - s c) + 2 \<le> Suc f\<close> by simp
    ultimately show ?thesis
      using parsers_tracks3 [of c f h] by (simp add: p_array_loop_body_fuel)
  qed
  have D: "fst (p_dict (Suc f) c h) \<noteq> Out_of_fuel" if "2 * (length (input c) - s c) \<le> Suc f"
  proof -
    have "fst (p_dict_loop f c' h' ks' vls' d' []) \<noteq> Out_of_fuel"
      if "input c' = input c" "s c + 4 \<le> s c'" "s c' \<le> length (input c)" for c' h' ks' vls' d'
      using Suc [of c' h' _ _ ks' vls' d' "[]"] that \<open>2 * (length (input c) - s c) \<le> Suc f\<close> by simp
    then show ?thesis
      by (simp add: p_dict_body_fuel)
  qed
  have DL: "fst (p_dict_loop (Suc f) c h ks vls d es) \<noteq> Out_of_fuel"
    if "2 * (length (input c) - s c) + 2 \<le> Suc f"
  proof -
    have "fst (p_value f c' h') \<noteq> Out_of_fuel" if "input c' = input c" "s c \<le> s c'" for c' h'
      using Suc [of c' h'] that \<open>2 * (length (input c) - s c) + 2 \<le> Suc f\<close> by simp
    moreover have "fst (p_dict_loop f c' h' ks' vls' d' es') \<noteq> Out_of_fuel"
      if "input c' = input c" "s c + 2 \<le> s c'" "s c' \<le> length (input c)" for c' h' ks' vls' d' es'
      using Suc [of c' h' _ _ ks' vls' d' es'] that \<open>2 * (length (input c) - s c) + 2 \<le> Suc f\<close> by simp
    moreover have "\<And>c h. tracks3 c (p_value f c h)"
      using parsers_tracks3 by blast
    ultimately show ?thesis
      by (simp add: p_dict_loop_body_fuel)
  qed
  show ?case
    using V A AL D DL by blast
qed

lemma p_value_enough_fuel:
  "2 * (length (input c) - s c) + 1 \<le> f \<Longrightarrow> fst (p_value f c h) \<noteq> Out_of_fuel"
  using parsers_fuel by blast

lemma dson_parse_fuel: "fst (dson_parse buf len u h) \<noteq> No_fuel"
proof -
  have "fst (p_value (2 * len + 1) \<lparr>input = take len buf, s = 0, unsafe = u\<rparr> h) \<noteq> Out_of_fuel"
    if "len < length buf"
    using that by (intro p_value_enough_fuel) simp
  then show ?thesis
    by (auto simp: dson_parse_def split: prod.splits res.splits)
qed

section \<open>The cursor and the errors of a parse\<close>

text \<open>
  C9.  No parsing function moves the cursor back: \<^verbatim>\<open>p_chars\<close> adds \<open>n\<close> to the offset or
  fails and leaves it, and the offset a function returns with is never below the one it
  was called with, whatever the result.
\<close>

theorem cursor_never_rewinds:
  "(p_chars c n = Some (cur, c') \<longrightarrow> s c' = s c + n)
   \<and> (p_chars c n = None \<longrightarrow> s c + n > s_end c)
   \<and> s c \<le> s (skip_char c)
   \<and> s c \<le> s (maybe_p_whitespace c)
   \<and> s c \<le> s (snd (p_empty c))
   \<and> s c \<le> s (snd (p_bool c))
   \<and> s c \<le> s (snd (p_octal c))
   \<and> s c \<le> s (snd (p_double c))
   \<and> s c \<le> s (snd (handle_escaped c out i))
   \<and> s c \<le> s (fst (snd (p_string c h)))
   \<and> s c \<le> s (fst (snd (p_array f c h)))
   \<and> s c \<le> s (fst (snd (p_array_loop f c h array vs)))
   \<and> s c \<le> s (fst (snd (p_dict f c h)))
   \<and> s c \<le> s (fst (snd (p_dict_loop f c h ks vls dict es)))
   \<and> s c \<le> s (fst (snd (p_value f c h)))"
proof -
  have a: "p_chars c n = Some (cur, c') \<longrightarrow> s c' = s c + n"
    by (auto dest!: p_chars_Some)
  have b: "p_chars c n = None \<longrightarrow> s c + n > s_end c"
    by (simp add: p_chars_def)
  have t: "tracks c r \<Longrightarrow> s c \<le> s (snd r)" for r :: "'a res \<times> ctx"
    by (simp add: tracks_def follows_def)
  have t3: "tracks3 c r \<Longrightarrow> s c \<le> s (fst (snd r))" for r :: "'a res \<times> ctx \<times> heap"
    by (simp add: tracks3_def tracks_def follows_def)
  note f = follows_facts(2)
  show ?thesis
    using a b f [OF skip_char_follows] f [OF maybe_p_whitespace_follows]
      t [OF p_empty_tracks] t [OF p_bool_tracks] f [OF p_octal_follows] t [OF p_double_tracks]
      t [OF handle_escaped_tracks] t3 [OF p_string_tracks]
      parsers_tracks3 [of c f h array vs ks vls dict es, THEN conjunct1, THEN t3]
      parsers_tracks3 [of c f h array vs ks vls dict es, THEN conjunct2, THEN conjunct1, THEN t3]
      parsers_tracks3 [of c f h array vs ks vls dict es, THEN conjunct2, THEN conjunct2, THEN conjunct1, THEN t3]
      parsers_tracks3 [of c f h array vs ks vls dict es, THEN conjunct2, THEN conjunct2, THEN conjunct2, THEN conjunct1, THEN t3]
      parsers_tracks3 [of c f h array vs ks vls dict es, THEN conjunct2, THEN conjunct2, THEN conjunct2, THEN conjunct2, THEN t3]
    by blast
qed

theorem cursor_never_rewinds_witness:
  "p_chars \<lparr>input = ''yes'', s = 0, unsafe = False\<rparr> 2 = Some (0, \<lparr>input = ''yes'', s = 2, unsafe = False\<rparr>)
   \<and> p_chars \<lparr>input = ''yes'', s = 0, unsafe = False\<rparr> 4 = None
   \<and> s \<lparr>input = ''yes'', s = 2, unsafe = False\<rparr> = 0 + 2
   \<and> 0 + 4 > s_end \<lparr>input = ''yes'', s = 0, unsafe = False\<rparr>"
  using cursor_never_rewinds [of "\<lparr>input = ''yes'', s = 0, unsafe = False\<rparr>" 2 0
      "\<lparr>input = ''yes'', s = 2, unsafe = False\<rparr>"]
    cursor_never_rewinds [of "\<lparr>input = ''yes'', s = 0, unsafe = False\<rparr>" 4]
  by (simp add: p_chars_def s_end_def)

lemma dson_parse_cases:
  assumes "dson_parse buf len u h = (r, h')"
  shows "(\<not> len < length buf \<and> r = Undefined_behaviour Out_of_bounds_read)
   \<or> (len < length buf \<and> buf ! len \<noteq> CHR 0x00 \<and> r = Returns (Some Input_was_not_NUL_terminated) None)
   \<or> (len < length buf \<and> buf ! len = CHR 0x00 \<and>
       (\<exists>v. fst (p_value (2 * len + 1) \<lparr>input = take len buf, s = 0, unsafe = u\<rparr> h) = Ok v
            \<and> r = Returns None (Some v)))
   \<or> (len < length buf \<and> buf ! len = CHR 0x00 \<and>
       (\<exists>p m. fst (p_value (2 * len + 1) \<lparr>input = take len buf, s = 0, unsafe = u\<rparr> h) = Err (At p m)
            \<and> p \<le> len \<and> r = Returns (Some (At p m)) None))
   \<or> (len < length buf \<and> buf ! len = CHR 0x00 \<and>
       (\<exists>ub. fst (p_value (2 * len + 1) \<lparr>input = take len buf, s = 0, unsafe = u\<rparr> h) = Undefined ub
            \<and> r = Undefined_behaviour ub))"
proof -
  define c where "c = \<lparr>input = take len buf, s = 0, unsafe = u\<rparr>"
  define F where "F = 2 * len + 1"
  obtain x c1 h1 where p: "p_value F c h = (x, c1, h1)"
    by (cases "p_value F c h")
  have t: "tracks3 c (x, c1, h1)"
    using parsers_tracks3 [of c F h] p by simp
  have fuel: "len < length buf \<Longrightarrow> x \<noteq> Out_of_fuel"
    using p_value_enough_fuel [of c F h] p by (simp add: c_def F_def)
  have pos: "len < length buf \<Longrightarrow> s c1 \<le> len"
    using t by (auto simp: tracks3_def tracks_def follows_def s_end_def c_def)
  show ?thesis
    using assms p t fuel pos unfolding dson_parse_def c_def [symmetric] F_def [symmetric]
    by (cases x) (auto simp: tracks3_simps split: if_splits)
qed

text \<open>
  C6, as the code has it.  A call of \<^verbatim>\<open>dson_parse\<close> that returns either returns
  \<^verbatim>\<open>NULL\<close> and leaves a value in \<^verbatim>\<open>*out\<close>, or returns a message and leaves \<^verbatim>\<open>*out\<close>
  \<^verbatim>\<open>NULL\<close>.  The message for an input that is not NUL-terminated carries no position;
  every other message carries an offset within the input.  A value is left only when
  \<^verbatim>\<open>p_value\<close> has succeeded.
\<close>

theorem dson_parse_failure:
  assumes "dson_parse buf len u h = (Returns ret out, h')"
  shows "(ret = None \<longleftrightarrow> out \<noteq> None)
    \<and> (\<forall>er. ret = Some er \<longrightarrow>
          (if buf ! len \<noteq> CHR 0x00 then er = Input_was_not_NUL_terminated
           else position_annotated er \<and> (\<exists>p m. er = At p m \<and> p \<le> len)))
    \<and> (\<forall>v. out = Some v \<longrightarrow>
          buf ! len = CHR 0x00 \<and>
          fst (p_value (2 * len + 1) \<lparr>input = take len buf, s = 0, unsafe = u\<rparr> h) = Ok v)"
  using dson_parse_cases [OF assms]
  by (auto simp: position_annotated_def simp del: p_value.simps)

theorem dson_parse_failure_witness:
  "dson_parse (''7.x'' @ [CHR 0x00]) 3 False \<lparr>next_addr = 0, live = {}\<rparr>
     = (Returns (Some (At 2 (Bad_octal_character (CHR ''x'')))) None, \<lparr>next_addr = 1, live = {}\<rparr>)
   \<and> position_annotated (At 2 (Bad_octal_character (CHR ''x'')))"
proof -
  have e: "dson_parse (''7.x'' @ [CHR 0x00]) 3 False \<lparr>next_addr = 0, live = {}\<rparr>
     = (Returns (Some (At 2 (Bad_octal_character (CHR ''x'')))) None, \<lparr>next_addr = 1, live = {}\<rparr>)"
    by code_simp
  show ?thesis
    using dson_parse_failure [OF e] e by simp
qed

text \<open>
  C6, as the claim words it, fails: the error for an input whose byte at \<^verbatim>\<open>length\<close> is
  not NUL is the plain string "input was not NUL-terminated", without a position.
\<close>

theorem not_nul_terminated_counterexample:
  "fst (dson_parse ''abc'' 1 False \<lparr>next_addr = 0, live = {}\<rparr>)
     = Returns (Some Input_was_not_NUL_terminated) None
   \<and> \<not> position_annotated Input_was_not_NUL_terminated"
  by (simp add: dson_parse_def position_annotated_def)

section \<open>Releasing a tree\<close>

lemma free_live: "a \<in> live h \<Longrightarrow> free a h = Inr (h\<lparr>live := live h - {a}\<rparr>)"
  by (simp add: free_def)

lemma free_tree:
  "(distinct (blocks t) \<longrightarrow> set (blocks t) \<subseteq> live h \<longrightarrow>
      dson_free_value t h = Inr (h\<lparr>live := live h - set (blocks t)\<rparr>))"
  "(distinct (blocks_list vs) \<longrightarrow> set (blocks_list vs) \<subseteq> live h \<longrightarrow>
      array_free_loop vs h = Inr (h\<lparr>live := live h - set (blocks_list vs)\<rparr>))"
  "(distinct (blocks_entries es) \<longrightarrow> set (blocks_entries es) \<subseteq> live h \<longrightarrow>
      dict_free_loop es h = Inr (h\<lparr>live := live h - set (blocks_entries es)\<rparr>))"
proof (induction t h and vs h and es h rule: dson_free_value_array_free_loop_dict_free_loop.induct)
  case (1 a sa str h)
  then show ?case
    by (auto simp: free_live intro!: arg_cong [where f = "\<lambda>x. h\<lparr>live := x\<rparr>"])
next
  case (2 a n h)
  then show ?case by (simp add: free_live)
next
  case (3 a b h)
  then show ?case by (simp add: free_live)
next
  case (4 a h)
  then show ?case by (simp add: free_live)
next
  case (5 a arr vs h)
  show ?case
  proof (intro impI)
    assume d: "distinct (blocks (DSON_ARRAY a arr vs))" and l: "set (blocks (DSON_ARRAY a arr vs)) \<subseteq> live h"
    have "array_free_loop vs h = Inr (h\<lparr>live := live h - set (blocks_list vs)\<rparr>)"
      using 5 d l by simp
    moreover have "live h - set (blocks_list vs) - {arr} - {a} = live h - set (blocks (DSON_ARRAY a arr vs))"
      by auto
    ultimately show "dson_free_value (DSON_ARRAY a arr vs) h
        = Inr (h\<lparr>live := live h - set (blocks (DSON_ARRAY a arr vs))\<rparr>)"
      using d l by (auto simp: free_live)
  qed
next
  case (6 a dd ks vls es h)
  show ?case
  proof (intro impI)
    assume d: "distinct (blocks (DSON_DICT a dd ks vls es))"
      and l: "set (blocks (DSON_DICT a dd ks vls es)) \<subseteq> live h"
    have "dict_free_loop es h = Inr (h\<lparr>live := live h - set (blocks_entries es)\<rparr>)"
      using 6 d l by simp
    moreover have "live h - set (blocks_entries es) - {ks} - {vls} - {dd} - {a}
        = live h - set (blocks (DSON_DICT a dd ks vls es))"
      by auto
    ultimately show "dson_free_value (DSON_DICT a dd ks vls es) h
        = Inr (h\<lparr>live := live h - set (blocks (DSON_DICT a dd ks vls es))\<rparr>)"
      using d l by (auto simp: free_live)
  qed
next
  case (7 h)
  then show ?case by simp
next
  case (8 v vs h)
  show ?case
  proof (intro impI)
    assume d: "distinct (blocks_list (v # vs))" and l: "set (blocks_list (v # vs)) \<subseteq> live h"
    have 1: "dson_free_value v h = Inr (h\<lparr>live := live h - set (blocks v)\<rparr>)"
      using 8(1) d l by simp
    have "array_free_loop vs (h\<lparr>live := live h - set (blocks v)\<rparr>)
        = Inr (h\<lparr>live := live h - set (blocks v) - set (blocks_list vs)\<rparr>)"
      using 8(2) [OF 1] d l by auto
    moreover have "live h - set (blocks v) - set (blocks_list vs) = live h - set (blocks_list (v # vs))"
      by auto
    ultimately show "array_free_loop (v # vs) h = Inr (h\<lparr>live := live h - set (blocks_list (v # vs))\<rparr>)"
      using 1 by simp
  qed
next
  case (9 h)
  then show ?case by simp
next
  case (10 e es h)
  show ?case
  proof (intro impI)
    assume d: "distinct (blocks_entries (e # es))" and l: "set (blocks_entries (e # es)) \<subseteq> live h"
    have 0: "free (fst e) h = Inr (h\<lparr>live := live h - {fst e}\<rparr>)"
      using l by (simp add: free_live)
    have 1: "dson_free_value (snd (snd e)) (h\<lparr>live := live h - {fst e}\<rparr>)
        = Inr (h\<lparr>live := live h - {fst e} - set (blocks (snd (snd e)))\<rparr>)"
      using 10(1) [OF 0] d l by auto
    have "dict_free_loop es (h\<lparr>live := live h - {fst e} - set (blocks (snd (snd e)))\<rparr>)
        = Inr (h\<lparr>live := live h - {fst e} - set (blocks (snd (snd e))) - set (blocks_entries es)\<rparr>)"
      using 10(2) [OF 0 1] d l by auto
    moreover have "live h - {fst e} - set (blocks (snd (snd e))) - set (blocks_entries es)
        = live h - set (blocks_entries (e # es))"
      by auto
    ultimately show "dict_free_loop (e # es) h = Inr (h\<lparr>live := live h - set (blocks_entries (e # es))\<rparr>)"
      using 0 1 by simp
  qed
qed

section \<open>Strings with one escape\<close>

lemma byte_at_append: "byte_at (A @ x # B) (length A) = x"
  by (simp add: byte_at_def)

lemma p_char_at:
  "input c = A @ x # B \<Longrightarrow> s c = length A \<Longrightarrow> p_char c = Some (length A, c\<lparr>s := length A + 1\<rparr>)"
  by (simp add: p_char_def p_chars_def s_end_def)

lemma string_scan_plain:
  assumes "\<forall>ch \<in> set plain. ch \<noteq> CHR 0x22 \<and> ch \<noteq> CHR 0x5C"
    and "input c = A @ plain @ B" and "s c = length A"
  shows "string_scan c n = string_scan (c\<lparr>s := length A + length plain\<rparr>) n"
  using assms
proof (induction plain arbitrary: A c)
  case Nil
  then have "c\<lparr>s := length A\<rparr> = c"
    by (cases c) simp
  then show ?case by simp
next
  case (Cons x xs)
  have p: "p_char c = Some (length A, c\<lparr>s := length A + 1\<rparr>)"
    using Cons.prems by (intro p_char_at [where x = x and B = "xs @ B"]) simp_all
  have b: "byte_at (input c) (length A) = x"
    using Cons.prems byte_at_append [of A x "xs @ B"] by simp
  have "string_scan c n = string_scan (c\<lparr>s := length A + 1\<rparr>) n"
    using p b Cons.prems by (subst string_scan.simps) simp
  also have "\<dots> = string_scan (c\<lparr>s := length A + 1\<rparr>\<lparr>s := length (A @ [x]) + length xs\<rparr>) n"
    using Cons.prems by (intro Cons.IH [where A = "A @ [x]"]) simp_all
  finally show ?case by simp
qed

lemma string_scan_quote:
  assumes "input c = A @ CHR 0x22 # B" and "s c = length A"
  shows "string_scan c n = (Ok (length A, n), c\<lparr>s := length A + 1\<rparr>)"
  using p_char_at [OF assms] byte_at_append [of A "CHR 0x22" B] assms
  by (subst string_scan.simps) simp

lemma string_scan_escape:
  assumes "input c = A @ CHR 0x5C # x # B" and "s c = length A" and "x \<noteq> CHR ''u''"
  shows "string_scan c n = string_scan (c\<lparr>s := length A + 2\<rparr>) (n + 1)"
proof -
  have p1: "p_char c = Some (length A, c\<lparr>s := length A + 1\<rparr>)"
    using assms by (intro p_char_at [where x = "CHR 0x5C" and B = "x # B"]) simp_all
  have p2: "p_char (c\<lparr>s := length A + 1\<rparr>) = Some (length (A @ [CHR 0x5C]), c\<lparr>s := length A + 1\<rparr>\<lparr>s := length (A @ [CHR 0x5C]) + 1\<rparr>)"
    using assms by (intro p_char_at [where x = x and B = B]) simp_all
  have b1: "byte_at (input c) (length A) = CHR 0x5C"
    using assms byte_at_append [of A "CHR 0x5C" "x # B"] by simp
  have b2: "byte_at (input c) (Suc (length A)) = x"
    using assms byte_at_append [of "A @ [CHR 0x5C]" x B] by simp
  show ?thesis
    using p1 p2 b1 b2 assms(3) by (subst string_scan.simps) simp
qed

lemma string_scan_u:
  assumes "input c = A @ CHR 0x5C # CHR ''u'' # six @ B" and "s c = length A" and "length six = 6"
  shows "string_scan c n = string_scan (c\<lparr>s := length A + 8\<rparr>) (Suc (Suc (Suc n)))"
proof -
  have p1: "p_char c = Some (length A, c\<lparr>s := length A + 1\<rparr>)"
    using assms by (intro p_char_at [where x = "CHR 0x5C" and B = "CHR ''u'' # six @ B"]) simp_all
  have p2: "p_char (c\<lparr>s := length A + 1\<rparr>) = Some (length (A @ [CHR 0x5C]), c\<lparr>s := length A + 1\<rparr>\<lparr>s := length (A @ [CHR 0x5C]) + 1\<rparr>)"
    using assms by (intro p_char_at [where x = "CHR ''u''" and B = "six @ B"]) simp_all
  have b1: "byte_at (input c) (length A) = CHR 0x5C"
    using assms byte_at_append [of A "CHR 0x5C" "CHR ''u'' # six @ B"] by simp
  have b2: "byte_at (input c) (Suc (length A)) = CHR ''u''"
    using assms byte_at_append [of "A @ [CHR 0x5C]" "CHR ''u''" "six @ B"] by simp
  have p3: "p_chars (c\<lparr>s := Suc (Suc (length A))\<rparr>) 6 = Some (Suc (Suc (length A)), c\<lparr>s := length A + 8\<rparr>)"
    using assms by (simp add: p_chars_def s_end_def)
  show ?thesis
    using p1 p2 p3 b1 b2 by (subst string_scan.simps) simp
qed

lemma decode_loop_plain:
  assumes "\<forall>ch \<in> set plain. ch \<noteq> CHR 0x5C"
    and "input c = A @ plain @ B" and "p = length A"
    and "p + length plain \<le> e" and "i + length plain \<le> length out"
  shows "decode_loop c e p out i =
         decode_loop c e (p + length plain) (take i out @ plain @ drop (i + length plain) out)
           (i + length plain)"
  using assms
proof (induction plain arbitrary: A p out i)
  case Nil
  then show ?case by simp
next
  case (Cons x xs)
  have b: "byte_at (input c) p = x"
    using Cons.prems byte_at_append [of A x "xs @ B"] by simp
  have "decode_loop c e p out i = decode_loop c e (p + 1) (out[i := x]) (Suc i)"
    using b Cons.prems by (subst decode_loop.simps) (simp add: emit_def store_def)
  also have "\<dots> = decode_loop c e (p + 1 + length xs)
        (take (Suc i) (out[i := x]) @ xs @ drop (Suc i + length xs) (out[i := x])) (Suc i + length xs)"
    using Cons.prems by (intro Cons.IH [where A = "A @ [x]"]) simp_all
  also have "take (Suc i) (out[i := x]) = take i out @ [x]"
    using Cons.prems by (simp add: take_Suc_conv_app_nth)
  also have "drop (Suc i + length xs) (out[i := x]) = drop (Suc i + length xs) out"
    by simp
  finally show ?case by simp
qed

lemma decode_loop_end: "decode_loop c e e out i = (Ok (out, i), c)"
  by (subst decode_loop.simps) simp

lemma decode_loop_escape:
  assumes "p < e" and "byte_at (input c) p = CHR 0x5C" and "byte_at (input c) (p + 1) = x"
    and "x \<noteq> CHR ''u''" and "i < length out"
  shows "decode_loop c e p out i =
     (case spec_escape (unsafe c) x of
        Some ch \<Rightarrow> decode_loop c e (p + 2) (out[i := ch]) (Suc i)
      | None \<Rightarrow> (Err (ERROR c (Unrecognized_or_forbidden_escape x)), c))"
  using assms by (subst decode_loop.simps) (auto simp: spec_escape_def emit_def store_def)

lemma decode_loop_forbidden_u:
  assumes "p < e" and "byte_at (input c) p = CHR 0x5C" and "byte_at (input c) (p + 1) = CHR ''u''"
    and "\<not> unsafe c"
  shows "decode_loop c e p out i = (Err (ERROR c (Unrecognized_or_forbidden_escape (CHR ''u''))), c)"
  using assms by (subst decode_loop.simps) simp

lemma update_after_prefix:
  "(pre @ replicate (length post + 2) z)[length pre := ch] = pre @ ch # replicate (length post) z @ [z]"
proof -
  have "replicate (length post + 2) z = z # replicate (length post) z @ [z]"
    by (simp add: replicate_append_same)
  then show ?thesis
    by (simp add: list_update_append)
qed

lemma written_after_escape:
  "take (Suc (length pre)) (pre @ ch # R) @ post
     @ drop (Suc (length pre) + length post) (pre @ ch # replicate (length post) z @ [z])
   = pre @ [ch] @ post @ [z]"
  by simp

lemma written_prefix:
  "take 0 (replicate (length pre + length post + 2) z) @ pre
     @ drop (0 + length pre) (replicate (length pre + length post + 2) z)
   = pre @ replicate (length post + 2) z"
proof -
  have "length pre + length post + 2 - length pre = length post + 2"
    by simp
  then have "drop (length pre) (replicate (length pre + length post + 2) z) = replicate (length post + 2) z"
    by (simp only: drop_replicate)
  then show ?thesis
    by (simp only: take_0 append_Nil add_0)
qed

lemma string_scan_one_escape:
  assumes pl: "\<forall>ch \<in> set pre \<union> set post. ch \<noteq> CHR 0x22 \<and> ch \<noteq> CHR 0x5C"
    and x: "x \<noteq> CHR ''u''"
    and i: "input c = A @ [CHR 0x22] @ pre @ [CHR 0x5C, x] @ post @ [CHR 0x22] @ rest"
    and s: "s c = length A + 1"
  shows "string_scan c 0 =
     (Ok (length A + length pre + length post + 3, 1), c\<lparr>s := length A + length pre + length post + 4\<rparr>)"
proof -
  have "string_scan c 0 = string_scan (c\<lparr>s := length (A @ [CHR 0x22]) + length pre\<rparr>) 0"
    using pl i s
    by (intro string_scan_plain [where B = "[CHR 0x5C, x] @ post @ [CHR 0x22] @ rest"]) simp_all
  also have "\<dots> = string_scan (c\<lparr>s := length (A @ [CHR 0x22]) + length pre\<rparr>
        \<lparr>s := length (A @ [CHR 0x22] @ pre) + 2\<rparr>) (0 + 1)"
    using i x by (intro string_scan_escape [where x = x and B = "post @ [CHR 0x22] @ rest"]) simp_all
  also have "\<dots> = string_scan (c\<lparr>s := length (A @ [CHR 0x22] @ pre @ [CHR 0x5C, x])\<rparr>) 1"
    by simp
  also have "\<dots> = string_scan (c\<lparr>s := length (A @ [CHR 0x22] @ pre @ [CHR 0x5C, x])\<rparr>
        \<lparr>s := length (A @ [CHR 0x22] @ pre @ [CHR 0x5C, x]) + length post\<rparr>) 1"
    using pl i
    by (intro string_scan_plain [where B = "[CHR 0x22] @ rest"]) simp_all
  also have "\<dots> = string_scan (c\<lparr>s := length (A @ [CHR 0x22] @ pre @ [CHR 0x5C, x] @ post)\<rparr>) 1"
    by (simp add: add.assoc)
  also have "\<dots> = (Ok (length (A @ [CHR 0x22] @ pre @ [CHR 0x5C, x] @ post), 1),
        c\<lparr>s := length (A @ [CHR 0x22] @ pre @ [CHR 0x5C, x] @ post)\<rparr>
         \<lparr>s := length (A @ [CHR 0x22] @ pre @ [CHR 0x5C, x] @ post) + 1\<rparr>)"
    using i by (intro string_scan_quote [where B = rest]) simp_all
  finally show ?thesis
    by (simp add: add.assoc)
qed

lemma decode_one_escape:
  assumes pl: "\<forall>ch \<in> set pre \<union> set post. ch \<noteq> CHR 0x22 \<and> ch \<noteq> CHR 0x5C"
    and x: "x \<noteq> CHR ''u''"
    and i: "input c = A @ [CHR 0x22] @ pre @ [CHR 0x5C, x] @ post @ [CHR 0x22] @ rest"
  shows "decode_loop c (length A + length pre + length post + 3) (length A + 1)
            (replicate (length pre + length post + 2) (CHR 0x00)) 0 =
     (case spec_escape (unsafe c) x of
        Some ch \<Rightarrow> (Ok (pre @ [ch] @ post @ [CHR 0x00], length pre + length post + 1), c)
      | None \<Rightarrow> (Err (ERROR c (Unrecognized_or_forbidden_escape x)), c))"
proof -
  let ?e = "length A + length pre + length post + 3"
  have 1: "decode_loop c ?e (length A + 1) (replicate (length pre + length post + 2) (CHR 0x00)) 0
      = decode_loop c ?e (length A + 1 + length pre)
          (take 0 (replicate (length pre + length post + 2) (CHR 0x00)) @ pre
            @ drop (0 + length pre) (replicate (length pre + length post + 2) (CHR 0x00)))
          (0 + length pre)"
    using pl i
    by (intro decode_loop_plain [where A = "A @ [CHR 0x22]" and B = "[CHR 0x5C, x] @ post @ [CHR 0x22] @ rest"])
       simp_all
  note 2 = written_prefix [of pre post "CHR 0x00"]
  have b1: "byte_at (input c) (length A + 1 + length pre) = CHR 0x5C"
    using i byte_at_append [of "A @ [CHR 0x22] @ pre" "CHR 0x5C" "x # post @ [CHR 0x22] @ rest"] by simp
  have b2: "byte_at (input c) (length A + 1 + length pre + 1) = x"
    using i byte_at_append [of "A @ [CHR 0x22] @ pre @ [CHR 0x5C]" x "post @ [CHR 0x22] @ rest"] by simp
  have 3: "decode_loop c ?e (length A + 1 + length pre) (pre @ replicate (length post + 2) (CHR 0x00)) (length pre)
      = (case spec_escape (unsafe c) x of
        Some ch \<Rightarrow> decode_loop c ?e (length A + 1 + length pre + 2)
                     ((pre @ replicate (length post + 2) (CHR 0x00))[length pre := ch]) (Suc (length pre))
      | None \<Rightarrow> (Err (ERROR c (Unrecognized_or_forbidden_escape x)), c))"
    using b1 b2 x by (intro decode_loop_escape) simp_all
  have 4: "decode_loop c ?e (length A + 1 + length pre + 2)
                     ((pre @ replicate (length post + 2) (CHR 0x00))[length pre := ch]) (Suc (length pre))
       = (Ok (pre @ [ch] @ post @ [CHR 0x00], length pre + length post + 1), c)" for ch
  proof -
    have "decode_loop c ?e (length A + 1 + length pre + 2)
            (pre @ ch # replicate (length post) (CHR 0x00) @ [CHR 0x00]) (Suc (length pre))
        = decode_loop c ?e (length A + 1 + length pre + 2 + length post)
           (take (Suc (length pre)) (pre @ ch # replicate (length post) (CHR 0x00) @ [CHR 0x00]) @ post
             @ drop (Suc (length pre) + length post) (pre @ ch # replicate (length post) (CHR 0x00) @ [CHR 0x00]))
           (Suc (length pre) + length post)"
      using pl i
      by (intro decode_loop_plain [where A = "A @ [CHR 0x22] @ pre @ [CHR 0x5C, x]" and B = "[CHR 0x22] @ rest"])
         simp_all
    also have "length A + 1 + length pre + 2 + length post = ?e"
      by simp
    finally show ?thesis
      unfolding update_after_prefix written_after_escape
      by (simp add: decode_loop_end)
  qed
  show ?thesis
    unfolding 1 2 using 3 4 by (simp split: option.splits)
qed

lemma p_string_one_escape:
  assumes pl: "\<forall>ch \<in> set pre \<union> set post. ch \<noteq> CHR 0x22 \<and> ch \<noteq> CHR 0x5C"
    and x: "x \<noteq> CHR ''u''"
    and i: "input c = A @ [CHR 0x22] @ pre @ [CHR 0x5C, x] @ post @ [CHR 0x22] @ rest"
    and s: "s c = length A"
  shows "fst (p_string c h) =
     (case spec_escape (unsafe c) x of
        Some ch \<Rightarrow> Ok (next_addr h, pre @ [ch] @ post)
      | None \<Rightarrow> Err (At (length A + length pre + length post + 4) (Unrecognized_or_forbidden_escape x)))"
proof -
  define c1 where "c1 = c\<lparr>s := length A + 1\<rparr>"
  define c2 where "c2 = c1\<lparr>s := length A + length pre + length post + 4\<rparr>"
  let ?e = "length A + length pre + length post + 3"
  define y where "y = (case spec_escape (unsafe c) x of
        Some ch \<Rightarrow> Ok (pre @ [ch] @ post @ [CHR 0x00], length pre + length post + 1)
      | None \<Rightarrow> Err (ERROR c2 (Unrecognized_or_forbidden_escape x)))"
  have p: "p_char c = Some (length A, c1)"
    unfolding c1_def using i s
    by (intro p_char_at [where x = "CHR 0x22" and B = "pre @ [CHR 0x5C, x] @ post @ [CHR 0x22] @ rest"]) simp_all
  have q: "byte_at (input c1) (length A) = CHR 0x22"
    using i byte_at_append [of A "CHR 0x22" "pre @ [CHR 0x5C, x] @ post @ [CHR 0x22] @ rest"]
    by (simp add: c1_def)
  have sc: "string_scan c1 0 = (Ok (?e, 1), c2)"
    unfolding c2_def using pl x i
    by (intro string_scan_one_escape [where rest = rest]) (simp_all add: c1_def)
  have "?e - (length A + 1) - 1 + 1 = length pre + length post + 2"
    by simp
  moreover have "decode_loop c2 ?e (length A + 1) (replicate (length pre + length post + 2) (CHR 0x00)) 0 = (y, c2)"
    using decode_one_escape [of pre post x c2 A rest, OF pl x] i
    by (simp add: c2_def c1_def y_def split: option.splits)
  ultimately have d: "decode_loop c2 ?e (length A + 1) (replicate (?e - (length A + 1) - 1 + 1) (CHR 0x00)) 0 = (y, c2)"
    by (simp only:)
  have "free (fst (CALLOC h)) (snd (CALLOC h)) = Inr (h\<lparr>next_addr := Suc (next_addr h)\<rparr>\<lparr>live := insert (next_addr h) (live h) - {next_addr h}\<rparr>)"
    by (simp add: CALLOC_def free_def)
  then show ?thesis
    unfolding p_string_unfold [OF p q sc d, of h]
    by (auto simp: y_def store_def released_def CALLOC_def ERROR_At c2_def split: option.splits)
qed

lemma string_scan_one_u:
  assumes pl: "\<forall>ch \<in> set pre \<union> set post. ch \<noteq> CHR 0x22 \<and> ch \<noteq> CHR 0x5C"
    and six: "length six = 6"
    and i: "input c = A @ [CHR 0x22] @ pre @ [CHR 0x5C, CHR ''u''] @ six @ post @ [CHR 0x22] @ rest"
    and s: "s c = length A + 1"
  shows "string_scan c 0 =
     (Ok (length A + length pre + length post + 9, 3), c\<lparr>s := length A + length pre + length post + 10\<rparr>)"
proof -
  have "string_scan c 0 = string_scan (c\<lparr>s := length (A @ [CHR 0x22]) + length pre\<rparr>) 0"
    using pl i s
    by (intro string_scan_plain [where B = "[CHR 0x5C, CHR ''u''] @ six @ post @ [CHR 0x22] @ rest"]) simp_all
  also have "\<dots> = string_scan (c\<lparr>s := length (A @ [CHR 0x22]) + length pre\<rparr>
        \<lparr>s := length (A @ [CHR 0x22] @ pre) + 8\<rparr>) (Suc (Suc (Suc 0)))"
    using i six by (intro string_scan_u [where six = six and B = "post @ [CHR 0x22] @ rest"]) simp_all
  also have "\<dots> = string_scan (c\<lparr>s := length (A @ [CHR 0x22] @ pre @ [CHR 0x5C, CHR ''u''] @ six)\<rparr>) 3"
    using six by (simp add: ac_simps numeral_3_eq_3)
  also have "\<dots> = string_scan (c\<lparr>s := length (A @ [CHR 0x22] @ pre @ [CHR 0x5C, CHR ''u''] @ six)\<rparr>
        \<lparr>s := length (A @ [CHR 0x22] @ pre @ [CHR 0x5C, CHR ''u''] @ six) + length post\<rparr>) 3"
    using pl i
    by (intro string_scan_plain [where B = "[CHR 0x22] @ rest"]) simp_all
  also have "\<dots> = string_scan (c\<lparr>s := length (A @ [CHR 0x22] @ pre @ [CHR 0x5C, CHR ''u''] @ six @ post)\<rparr>) 3"
    by (simp add: ac_simps)
  also have "\<dots> = (Ok (length (A @ [CHR 0x22] @ pre @ [CHR 0x5C, CHR ''u''] @ six @ post), 3),
        c\<lparr>s := length (A @ [CHR 0x22] @ pre @ [CHR 0x5C, CHR ''u''] @ six @ post)\<rparr>
         \<lparr>s := length (A @ [CHR 0x22] @ pre @ [CHR 0x5C, CHR ''u''] @ six @ post) + 1\<rparr>)"
    using i by (intro string_scan_quote [where B = rest]) simp_all
  finally show ?thesis
    using six by (simp add: ac_simps)
qed

lemma p_string_forbidden_u:
  assumes pl: "\<forall>ch \<in> set pre \<union> set post. ch \<noteq> CHR 0x22 \<and> ch \<noteq> CHR 0x5C"
    and six: "length six = 6"
    and i: "input c = A @ [CHR 0x22] @ pre @ [CHR 0x5C, CHR ''u''] @ six @ post @ [CHR 0x22] @ rest"
    and s: "s c = length A"
    and u: "\<not> unsafe c"
  shows "fst (p_string c h) =
     Err (At (length A + length pre + length post + 10) (Unrecognized_or_forbidden_escape (CHR ''u'')))"
proof -
  define c1 where "c1 = c\<lparr>s := length A + 1\<rparr>"
  define c2 where "c2 = c1\<lparr>s := length A + length pre + length post + 10\<rparr>"
  let ?e = "length A + length pre + length post + 9"
  let ?out = "replicate (?e - (length A + 1) - 3 + 1) (CHR 0x00)"
  have p: "p_char c = Some (length A, c1)"
    unfolding c1_def using i s
    by (intro p_char_at [where x = "CHR 0x22"
          and B = "pre @ [CHR 0x5C, CHR ''u''] @ six @ post @ [CHR 0x22] @ rest"]) simp_all
  have q: "byte_at (input c1) (length A) = CHR 0x22"
    using i byte_at_append [of A "CHR 0x22" "pre @ [CHR 0x5C, CHR ''u''] @ six @ post @ [CHR 0x22] @ rest"]
    by (simp add: c1_def)
  have sc: "string_scan c1 0 = (Ok (?e, 3), c2)"
    unfolding c2_def using pl six i
    by (intro string_scan_one_u [where rest = rest and six = six]) (simp_all add: c1_def)
  have i2: "input c2 = (A @ [CHR 0x22]) @ pre @ ([CHR 0x5C, CHR ''u''] @ six @ post @ [CHR 0x22] @ rest)"
    using i by (simp add: c2_def c1_def)
  have "decode_loop c2 ?e (length A + 1) ?out 0
      = decode_loop c2 ?e (length A + 1 + length pre)
          (take 0 ?out @ pre @ drop (0 + length pre) ?out) (0 + length pre)"
    using pl by (intro decode_loop_plain [OF _ i2]) simp_all
  also have "\<dots> = (Err (ERROR c2 (Unrecognized_or_forbidden_escape (CHR ''u''))), c2)"
  proof (rule decode_loop_forbidden_u)
    show "length A + 1 + length pre < ?e" by simp
    show "byte_at (input c2) (length A + 1 + length pre) = CHR 0x5C"
      using i byte_at_append [of "A @ [CHR 0x22] @ pre" "CHR 0x5C" "CHR ''u'' # six @ post @ [CHR 0x22] @ rest"]
      by (simp add: c2_def c1_def)
    show "byte_at (input c2) (length A + 1 + length pre + 1) = CHR ''u''"
      using i byte_at_append [of "A @ [CHR 0x22] @ pre @ [CHR 0x5C]" "CHR ''u''" "six @ post @ [CHR 0x22] @ rest"]
      by (simp add: c2_def c1_def)
    show "\<not> unsafe c2"
      using u by (simp add: c2_def c1_def)
  qed
  finally have d: "decode_loop c2 ?e (length A + 1) ?out 0
      = (Err (ERROR c2 (Unrecognized_or_forbidden_escape (CHR ''u''))), c2)" .
  show ?thesis
    unfolding p_string_unfold [OF p q sc d, of h]
    by (simp add: released_def CALLOC_def free_def ERROR_At c2_def)
qed

section \<open>One value at the start of the input\<close>

lemma p_string_plain:
  assumes pl: "\<forall>ch \<in> set body. ch \<noteq> CHR 0x22 \<and> ch \<noteq> CHR 0x5C"
    and i: "input c = A @ [CHR 0x22] @ body @ [CHR 0x22] @ rest"
    and s: "s c = length A"
  shows "p_string c h =
     (Ok (next_addr h, body), c\<lparr>s := length A + length body + 2\<rparr>, snd (CALLOC h))"
proof -
  define c1 where "c1 = c\<lparr>s := length A + 1\<rparr>"
  define c2 where "c2 = c1\<lparr>s := length A + length body + 2\<rparr>"
  let ?e = "length A + length body + 1"
  let ?out = "replicate (?e - (length A + 1) - 0 + 1) (CHR 0x00)"
  have p: "p_char c = Some (length A, c1)"
    unfolding c1_def using i s
    by (intro p_char_at [where x = "CHR 0x22" and B = "body @ [CHR 0x22] @ rest"]) simp_all
  have q: "byte_at (input c1) (length A) = CHR 0x22"
    using i byte_at_append [of A "CHR 0x22" "body @ [CHR 0x22] @ rest"]
    by (simp add: c1_def)
  have "string_scan c1 0 = string_scan (c1\<lparr>s := length (A @ [CHR 0x22]) + length body\<rparr>) 0"
    using pl i by (intro string_scan_plain [where B = "[CHR 0x22] @ rest"]) (simp_all add: c1_def)
  also have "\<dots> = (Ok (length (A @ [CHR 0x22] @ body), 0),
      c1\<lparr>s := length (A @ [CHR 0x22]) + length body\<rparr>\<lparr>s := length (A @ [CHR 0x22] @ body) + 1\<rparr>)"
    using i by (intro string_scan_quote [where B = rest]) (simp_all add: c1_def)
  finally have sc: "string_scan c1 0 = (Ok (?e, 0), c2)"
    by (simp add: c2_def ac_simps)
  have i2: "input c2 = (A @ [CHR 0x22]) @ body @ ([CHR 0x22] @ rest)"
    using i by (simp add: c2_def c1_def)
  have "decode_loop c2 ?e (length A + 1) ?out 0
      = decode_loop c2 ?e (length A + 1 + length body)
          (take 0 ?out @ body @ drop (0 + length body) ?out) (0 + length body)"
    using pl by (intro decode_loop_plain [OF _ i2]) simp_all
  also have "length A + 1 + length body = ?e"
    by simp
  also have "take 0 ?out @ body @ drop (0 + length body) ?out = body @ [CHR 0x00]"
    by (simp add: replicate_append_same [symmetric])
  finally have d: "decode_loop c2 ?e (length A + 1) ?out 0 = (Ok (body @ [CHR 0x00], length body), c2)"
    by (simp add: decode_loop_end)
  show ?thesis
    unfolding p_string_unfold [OF p q sc d, of h]
    by (simp add: store_def CALLOC_def c2_def c1_def)
qed

lemma dson_parse_value:
  assumes "fst (p_value (2 * length inp + 1) \<lparr>input = inp, s = 0, unsafe = u\<rparr> h) = Ok v"
  shows "fst (dson_parse (inp @ [CHR 0x00]) (length inp) u h) = Returns None (Some v)"
proof -
  define F where "F = 2 * length inp + 1"
  obtain x c' h' where r: "p_value F \<lparr>input = inp, s = 0, unsafe = u\<rparr> h = (x, c', h')"
    by (cases "p_value F \<lparr>input = inp, s = 0, unsafe = u\<rparr> h")
  then have "x = Ok v"
    using assms by (simp add: F_def)
  then show ?thesis
    using r unfolding dson_parse_def F_def [symmetric] by simp
qed

lemma p_value_string:
  assumes "\<forall>ch \<in> set body. ch \<noteq> CHR 0x22 \<and> ch \<noteq> CHR 0x5C"
  shows "fst (p_value (Suc f) \<lparr>input = [CHR 0x22] @ body @ [CHR 0x22] @ t, s = 0, unsafe = u\<rparr> h)
     = Ok (DSON_STRING (next_addr h) (Suc (next_addr h)) body)"
proof -
  define c where "c = \<lparr>input = [CHR 0x22] @ body @ [CHR 0x22] @ t, s = 0, unsafe = u\<rparr>"
  have ps: "p_string c (snd (CALLOC h)) =
     (Ok (next_addr (snd (CALLOC h)), body), c\<lparr>s := length ([] :: string) + length body + 2\<rparr>,
      snd (CALLOC (snd (CALLOC h))))"
    using assms by (intro p_string_plain [where rest = t]) (simp_all add: c_def)
  have pk: "peek c = CHR 0x22"
    by (simp add: c_def peek_def byte_at_def)
  show ?thesis
    unfolding c_def [symmetric] using pk ps
    by (simp add: p_value_body_def p_value_end_def CALLOC_def)
qed

lemma p_value_yes:
  "fst (p_value (Suc f) \<lparr>input = ''yes'' @ t, s = 0, unsafe = u\<rparr> h) = Ok (DSON_BOOL (next_addr h) True)"
proof -
  define c where "c = \<lparr>input = ''yes'' @ t, s = 0, unsafe = u\<rparr>"
  have "p_bool c = (Ok True, c\<lparr>s := 3\<rparr>)"
    by (simp add: p_bool_def p_chars_def p_char_def s_end_def byte_at_def c_def)
  moreover have "peek c = CHR ''y''"
    by (simp add: c_def peek_def byte_at_def)
  ultimately show ?thesis
    unfolding c_def [symmetric]
    by (simp add: p_value_body_def p_value_end_def with_heap_def CALLOC_def is_octal_def)
qed

lemma p_value_no:
  "fst (p_value (Suc f) \<lparr>input = ''no'' @ t, s = 0, unsafe = u\<rparr> h) = Ok (DSON_BOOL (next_addr h) False)"
proof -
  define c where "c = \<lparr>input = ''no'' @ t, s = 0, unsafe = u\<rparr>"
  have "p_bool c = (Ok False, c\<lparr>s := 2\<rparr>)"
    by (simp add: p_bool_def p_chars_def p_char_def s_end_def byte_at_def c_def)
  moreover have "peek c = CHR ''n''"
    by (simp add: c_def peek_def byte_at_def)
  ultimately show ?thesis
    unfolding c_def [symmetric]
    by (simp add: p_value_body_def p_value_end_def with_heap_def CALLOC_def is_octal_def)
qed

section \<open>Trailing bytes, escapes and release\<close>

text \<open>
  C10, as the code has it.  \<^verbatim>\<open>dson_parse\<close> returns what \<^verbatim>\<open>p_value\<close> returns at offset 0 and
  does not look at the bytes behind the value: whenever \<^verbatim>\<open>p_value\<close> succeeds, so does the
  parse, wherever the cursor stands then.  A boolean and a string without escapes are
  complete as soon as their last byte is read, so any bytes \<open>t\<close> may follow them.
\<close>

theorem no_end_of_input_check:
  "(len < length buf \<and> buf ! len = CHR 0x00
      \<and> p_value (2 * len + 1) \<lparr>input = take len buf, s = 0, unsafe = u\<rparr> h = (Ok v, c', h')
     \<longrightarrow> dson_parse buf len u h = (Returns None (Some v), h'))
   \<and> fst (dson_parse ((''yes'' @ t) @ [CHR 0x00]) (length (''yes'' @ t)) u h)
       = Returns None (Some (DSON_BOOL (next_addr h) True))
   \<and> fst (dson_parse ((''no'' @ t) @ [CHR 0x00]) (length (''no'' @ t)) u h)
       = Returns None (Some (DSON_BOOL (next_addr h) False))
   \<and> ((\<forall>ch \<in> set body. ch \<noteq> CHR 0x22 \<and> ch \<noteq> CHR 0x5C) \<longrightarrow>
        fst (dson_parse (([CHR 0x22] @ body @ [CHR 0x22] @ t) @ [CHR 0x00])
               (length ([CHR 0x22] @ body @ [CHR 0x22] @ t)) u h)
          = Returns None (Some (DSON_STRING (next_addr h) (Suc (next_addr h)) body)))"
proof -
  have 1: "dson_parse buf len u h = (Returns None (Some v), h')"
    if "len < length buf" "buf ! len = CHR 0x00"
      "p_value (2 * len + 1) \<lparr>input = take len buf, s = 0, unsafe = u\<rparr> h = (Ok v, c', h')"
    using that unfolding dson_parse_def by (simp del: p_value.simps)
  have 2: "fst (dson_parse ((''yes'' @ t) @ [CHR 0x00]) (length (''yes'' @ t)) u h)
       = Returns None (Some (DSON_BOOL (next_addr h) True))"
    by (rule dson_parse_value) (simp only: Suc_eq_plus1 [symmetric] p_value_yes)
  have 3: "fst (dson_parse ((''no'' @ t) @ [CHR 0x00]) (length (''no'' @ t)) u h)
       = Returns None (Some (DSON_BOOL (next_addr h) False))"
    by (rule dson_parse_value) (simp only: Suc_eq_plus1 [symmetric] p_value_no)
  have 4: "fst (dson_parse (([CHR 0x22] @ body @ [CHR 0x22] @ t) @ [CHR 0x00])
               (length ([CHR 0x22] @ body @ [CHR 0x22] @ t)) u h)
          = Returns None (Some (DSON_STRING (next_addr h) (Suc (next_addr h)) body))"
    if "\<forall>ch \<in> set body. ch \<noteq> CHR 0x22 \<and> ch \<noteq> CHR 0x5C"
    by (rule dson_parse_value) (simp only: Suc_eq_plus1 [symmetric] p_value_string [OF that])
  show ?thesis
    using 1 2 3 4 by blast
qed

theorem no_end_of_input_check_witness:
  "(\<forall>ch \<in> set ''ab''. ch \<noteq> CHR 0x22 \<and> ch \<noteq> CHR 0x5C)
   \<and> fst (dson_parse (([CHR 0x22] @ ''ab'' @ [CHR 0x22] @ ''!!'') @ [CHR 0x00])
            (length ([CHR 0x22] @ ''ab'' @ [CHR 0x22] @ ''!!'')) False \<lparr>next_addr = 0, live = {}\<rparr>)
       = Returns None (Some (DSON_STRING 0 1 ''ab''))
   \<and> fst (dson_parse ((''yes'' @ ''!!'') @ [CHR 0x00]) (length (''yes'' @ ''!!'')) False
            \<lparr>next_addr = 0, live = {}\<rparr>)
       = Returns None (Some (DSON_BOOL 0 True))
   \<and> dson_parse (''7 x'' @ [CHR 0x00]) 3 False \<lparr>next_addr = 0, live = {}\<rparr>
       = (Returns None (Some (DSON_DOUBLE 0 7)), \<lparr>next_addr = 1, live = {0}\<rparr>)"
proof -
  have "p_value (2 * 3 + 1) \<lparr>input = take 3 (''7 x'' @ [CHR 0x00]), s = 0, unsafe = False\<rparr>
          \<lparr>next_addr = 0, live = {}\<rparr>
        = (Ok (DSON_DOUBLE 0 7), \<lparr>input = ''7 x'', s = 2, unsafe = False\<rparr>, \<lparr>next_addr = 1, live = {0}\<rparr>)"
    by code_simp
  then have "dson_parse (''7 x'' @ [CHR 0x00]) 3 False \<lparr>next_addr = 0, live = {}\<rparr>
       = (Returns None (Some (DSON_DOUBLE 0 7)), \<lparr>next_addr = 1, live = {0}\<rparr>)"
    using no_end_of_input_check [where buf = "''7 x'' @ [CHR 0x00]" and len = 3 and u = False
      and h = "\<lparr>next_addr = 0, live = {}\<rparr>" and v = "DSON_DOUBLE 0 7"
      and c' = "\<lparr>input = ''7 x'', s = 2, unsafe = False\<rparr>"
      and h' = "\<lparr>next_addr = 1, live = {0}\<rparr>"]
    by (simp del: p_value.simps)
  then show ?thesis
    using no_end_of_input_check [where t = "''!!''" and u = False and h = "\<lparr>next_addr = 0, live = {}\<rparr>"
      and body = "''ab''"]
    by simp
qed

text \<open>
  C10, as the claim words it, fails for numbers: \<^verbatim>\<open>7\<close> is one complete value, but with the
  trailing bytes \<^verbatim>\<open>.x\<close> the parse fails, because \<^verbatim>\<open>p_double\<close> reads the point as the start
  of a fraction of the same token.
\<close>

theorem trailing_bytes_counterexample:
  "fst (dson_parse (''7'' @ [CHR 0x00]) 1 False \<lparr>next_addr = 0, live = {}\<rparr>)
     = Returns None (Some (DSON_DOUBLE 0 7))
   \<and> fst (dson_parse (''7.x'' @ [CHR 0x00]) 3 False \<lparr>next_addr = 0, live = {}\<rparr>)
     = Returns (Some (At 2 (Bad_octal_character (CHR ''x'')))) None"
  by code_simp

text \<open>
  C3.  A string literal with one escape among bytes that are neither quote nor
  backslash decodes to those bytes with the escape replaced by the character of
  \<open>spec_escape\<close>: the escape \<^verbatim>\<open>b\<close> gives the backspace only with the unsafe flag, \<^verbatim>\<open>f\<close>,
  \<^verbatim>\<open>n\<close>, \<^verbatim>\<open>r\<close>, \<^verbatim>\<open>t\<close> give their control characters whatever the flag, and every other
  escape is the error "unrecognized or forbidden escape", reported at the end of the
  literal.  The escape \<^verbatim>\<open>u\<close> with its six bytes is that error when the flag is false.
  The literal with the single escape \<^verbatim>\<open>b\<close> fails without the flag and is one
  backspace with it.
\<close>

theorem escape_gating:
  "((\<forall>ch \<in> set pre \<union> set post. ch \<noteq> CHR 0x22 \<and> ch \<noteq> CHR 0x5C) \<and> x \<noteq> CHR ''u'' \<longrightarrow>
      fst (p_string \<lparr>input = A @ [CHR 0x22] @ pre @ [CHR 0x5C, x] @ post @ [CHR 0x22] @ rest,
              s = length A, unsafe = u\<rparr> h)
      = (case spec_escape u x of
           Some ch \<Rightarrow> Ok (next_addr h, pre @ [ch] @ post)
         | None \<Rightarrow> Err (At (length A + length pre + length post + 4) (Unrecognized_or_forbidden_escape x))))
   \<and> ((\<forall>ch \<in> set pre \<union> set post. ch \<noteq> CHR 0x22 \<and> ch \<noteq> CHR 0x5C) \<and> length six = 6 \<longrightarrow>
      fst (p_string \<lparr>input = A @ [CHR 0x22] @ pre @ [CHR 0x5C, CHR ''u''] @ six @ post @ [CHR 0x22] @ rest,
              s = length A, unsafe = False\<rparr> h)
      = Err (At (length A + length pre + length post + 10) (Unrecognized_or_forbidden_escape (CHR ''u''))))
   \<and> fst (dson_parse [CHR 0x22, CHR 0x5C, CHR ''b'', CHR 0x22, CHR 0x00] 4 False \<lparr>next_addr = 0, live = {}\<rparr>)
      = Returns (Some (At 4 (Unrecognized_or_forbidden_escape (CHR ''b'')))) None
   \<and> fst (dson_parse [CHR 0x22, CHR 0x5C, CHR ''b'', CHR 0x22, CHR 0x00] 4 True \<lparr>next_addr = 0, live = {}\<rparr>)
      = Returns None (Some (DSON_STRING 0 1 [CHR 0x08]))"
proof -
  have 1: "fst (p_string \<lparr>input = A @ [CHR 0x22] @ pre @ [CHR 0x5C, x] @ post @ [CHR 0x22] @ rest,
              s = length A, unsafe = u\<rparr> h)
      = (case spec_escape u x of
           Some ch \<Rightarrow> Ok (next_addr h, pre @ [ch] @ post)
         | None \<Rightarrow> Err (At (length A + length pre + length post + 4) (Unrecognized_or_forbidden_escape x)))"
    if "\<forall>ch \<in> set pre \<union> set post. ch \<noteq> CHR 0x22 \<and> ch \<noteq> CHR 0x5C" "x \<noteq> CHR ''u''"
    using p_string_one_escape [OF that, where rest = rest and A = A and h = h
        and c = "\<lparr>input = A @ [CHR 0x22] @ pre @ [CHR 0x5C, x] @ post @ [CHR 0x22] @ rest,
              s = length A, unsafe = u\<rparr>"]
    by simp
  have 2: "fst (p_string \<lparr>input = A @ [CHR 0x22] @ pre @ [CHR 0x5C, CHR ''u''] @ six @ post @ [CHR 0x22] @ rest,
              s = length A, unsafe = False\<rparr> h)
      = Err (At (length A + length pre + length post + 10) (Unrecognized_or_forbidden_escape (CHR ''u'')))"
    if "\<forall>ch \<in> set pre \<union> set post. ch \<noteq> CHR 0x22 \<and> ch \<noteq> CHR 0x5C" "length six = 6"
    using p_string_forbidden_u [OF that, where rest = rest and A = A and h = h
        and c = "\<lparr>input = A @ [CHR 0x22] @ pre @ [CHR 0x5C, CHR ''u''] @ six @ post @ [CHR 0x22] @ rest,
              s = length A, unsafe = False\<rparr>"]
    by simp
  have 3: "fst (dson_parse [CHR 0x22, CHR 0x5C, CHR ''b'', CHR 0x22, CHR 0x00] 4 False \<lparr>next_addr = 0, live = {}\<rparr>)
      = Returns (Some (At 4 (Unrecognized_or_forbidden_escape (CHR ''b'')))) None"
    by code_simp
  have 4: "fst (dson_parse [CHR 0x22, CHR 0x5C, CHR ''b'', CHR 0x22, CHR 0x00] 4 True \<lparr>next_addr = 0, live = {}\<rparr>)
      = Returns None (Some (DSON_STRING 0 1 [CHR 0x08]))"
    by code_simp
  show ?thesis
    using 1 2 3 4 by blast
qed

theorem escape_gating_witness:
  "(\<forall>ch \<in> set ''ab'' \<union> set ''c''. ch \<noteq> CHR 0x22 \<and> ch \<noteq> CHR 0x5C) \<and> CHR ''n'' \<noteq> CHR ''u''
   \<and> fst (p_string \<lparr>input = [] @ [CHR 0x22] @ ''ab'' @ [CHR 0x5C, CHR ''n''] @ ''c'' @ [CHR 0x22] @ [],
              s = length ([] :: string), unsafe = False\<rparr> \<lparr>next_addr = 0, live = {}\<rparr>)
      = Ok (0, ''ab'' @ [CHR 0x0A] @ ''c'')
   \<and> length ''123456'' = 6
   \<and> fst (p_string \<lparr>input = [] @ [CHR 0x22] @ ''ab'' @ [CHR 0x5C, CHR ''u''] @ ''123456'' @ ''c'' @ [CHR 0x22] @ [],
              s = length ([] :: string), unsafe = False\<rparr> \<lparr>next_addr = 0, live = {}\<rparr>)
      = Err (At 13 (Unrecognized_or_forbidden_escape (CHR ''u'')))"
  using escape_gating [of "''ab''" "''c''" "CHR ''n''" "[]" "[]" False "\<lparr>next_addr = 0, live = {}\<rparr>" "''123456''"]
  by (simp add: spec_escape_def)

text \<open>
  C8, as the code has it.  \<^verbatim>\<open>dson_free\<close> on a handle that holds a tree of any shape
  whose blocks are live and distinct releases exactly the blocks of the tree and leaves
  \<^verbatim>\<open>NULL\<close> in the handle; with \<^verbatim>\<open>v == NULL\<close> it does nothing; on a handle that holds
  \<^verbatim>\<open>NULL\<close> it releases no block a second time.
\<close>

theorem dson_free_releases:
  "(distinct (blocks t) \<and> set (blocks t) \<subseteq> live h \<longrightarrow>
      dson_free (Some (Some t)) h = Inr (Some None, h\<lparr>live := live h - set (blocks t)\<rparr>))
   \<and> dson_free None h = Inr (None, h)
   \<and> dson_free (Some None) h \<noteq> Inl Invalid_free"
  using free_tree(1) [of t h] by (simp add: dson_free_def)

theorem dson_free_releases_witness:
  "distinct (blocks (DSON_ARRAY 0 1 [DSON_DICT 2 3 4 5 [(6, ''k'', DSON_STRING 7 8 ''v'')], DSON_NONE 9]))
   \<and> set (blocks (DSON_ARRAY 0 1 [DSON_DICT 2 3 4 5 [(6, ''k'', DSON_STRING 7 8 ''v'')], DSON_NONE 9]))
        \<subseteq> live \<lparr>next_addr = 10, live = {0, 1, 2, 3, 4, 5, 6, 7, 8, 9}\<rparr>
   \<and> dson_free (Some (Some (DSON_ARRAY 0 1 [DSON_DICT 2 3 4 5 [(6, ''k'', DSON_STRING 7 8 ''v'')], DSON_NONE 9])))
        \<lparr>next_addr = 10, live = {0, 1, 2, 3, 4, 5, 6, 7, 8, 9}\<rparr>
      = Inr (Some None, \<lparr>next_addr = 10, live = {}\<rparr>)"
  using dson_free_releases
    [of "DSON_ARRAY 0 1 [DSON_DICT 2 3 4 5 [(6, ''k'', DSON_STRING 7 8 ''v'')], DSON_NONE 9]"
        "\<lparr>next_addr = 10, live = {0, 1, 2, 3, 4, 5, 6, 7, 8, 9}\<rparr>"]
  by simp

text \<open>
  C8, as the claim words it, fails: the guard of \<^verbatim>\<open>dson_free\<close> tests \<^verbatim>\<open>v\<close>, not \<^verbatim>\<open>*v\<close>, so
  a second call on the handle the first call has cleared reads \<^verbatim>\<open>(*v)->type\<close> through
  \<^verbatim>\<open>NULL\<close>.  It frees nothing twice, but it is not safe.
\<close>

theorem second_release_counterexample:
  "dson_free (Some (Some (DSON_NONE 0))) \<lparr>next_addr = 1, live = {0}\<rparr>
     = Inr (Some None, \<lparr>next_addr = 1, live = {}\<rparr>)
   \<and> dson_free (Some None) \<lparr>next_addr = 1, live = {}\<rparr> = Inl Null_dereference"
  by (simp add: dson_free_def free_def)

section \<open>The number decoder and the grammar of numbers\<close>














lemma tolower_very: "map tolower ''very'' = ''very''"
  by (simp add: tolower_def)










section \<open>Code points, lookup and the failing paths\<close>

section \<open>The UTF-8 encoder\<close>








section \<open>Dictionary lookup without a match\<close>

lemma dson_dict_get_loop_append:
  "dson_dict_get_loop (es @ [e]) key v =
     (if strcoll key (fst (snd e)) = 0 then Pointer (snd (snd e))
      else dson_dict_get_loop es key v)"
  by (induction es arbitrary: v) simp_all

text \<open>The loop does not stop at the first match: a later entry with the key wins.\<close>

lemma dson_dict_get_last_match:
  "strcoll key k = 0 \<Longrightarrow> \<forall>e \<in> set es'. strcoll key (fst (snd e)) \<noteq> 0 \<Longrightarrow>
   dson_dict_get (Some (es @ (a, k, x) # es')) key = Pointer x"
proof (induction es' rule: rev_induct)
  case Nil
  then show ?case
    using dson_dict_get_loop_append [of es "(a, k, x)" key Indeterminate]
    by (simp add: dson_dict_get_def)
next
  case (snoc e es')
  then have "dson_dict_get_loop ((es @ (a, k, x) # es') @ [e]) key Indeterminate = Pointer x"
    by (simp only: dson_dict_get_loop_append) (simp add: dson_dict_get_def)
  then show ?case
    by (simp add: dson_dict_get_def)
qed

text \<open>
  C5.  When no key matches, \<^verbatim>\<open>dson_dict_get\<close> returns its local \<^verbatim>\<open>v\<close> as declared,
  never assigned: an indeterminate pointer, not \<^verbatim>\<open>NULL\<close>.
\<close>

theorem dson_dict_get_no_match:
  "dson_dict_get (Some [(1, ''a'', DSON_BOOL 2 True)]) ''b'' = Indeterminate"
  by (simp add: dson_dict_get_def strcoll_def c_str_def)

section \<open>Unicode escapes\<close>

text \<open>
  C2.  The string \<^verbatim>\<open>"\u000101"\<close> with the unsafe flag set: the first pass sizes the
  buffer at 6 bytes; the second pass writes the byte for code point 0, then copies the
  six digits as ordinary characters, and the seventh store falls outside the
  buffer.
\<close>

theorem unicode_escape_overruns_buffer:
  "fst (dson_parse ([CHR 0x22, CHR 0x5C] @ ''u000101'' @ [CHR 0x22, CHR 0x00]) 10 True
         \<lparr>next_addr = 0, live = {}\<rparr>)
   = Undefined_behaviour Heap_overflow"
  by code_simp

section \<open>Allocations kept by a failed parse\<close>

text \<open>
  C4.  The input \<^verbatim>\<open>such "a" is x\<close>: the value after \<^verbatim>\<open>is\<close> does not parse, \<^verbatim>\<open>BURY\<close> frees
  the entries stored so far, and the key \<^verbatim>\<open>k\<close> just read, which is not stored yet,
  stays allocated: block 4 is live when the error is returned.
\<close>

theorem failed_dict_keeps_key:
  "dson_parse (''such '' @ [CHR 0x22, CHR ''a'', CHR 0x22] @ '' is x'' @ [CHR 0x00]) 13 False
     \<lparr>next_addr = 0, live = {}\<rparr>
   = (Returns (Some (At 12 Unable_to_determine_value_type)) None, \<lparr>next_addr = 6, live = {4}\<rparr>)"
  by code_simp

end
